theory Spec2Isabelle
  imports
    Main
    "HOL-Library.Multiset"
    "HOL-Library.Product_Lexorder"
    "HOL-Library.List_Lexorder"
    "HOL-Library.Char_ord"
    "HOL-Library.Sublist"
begin

section \<open>Unicode table generator: \<^verbatim>\<open>scripts/unicode/gen_unicode_tables.py\<close>\<close>

text \<open>
  A shallow embedding of the generator. Python integers are \<^typ>\<open>int\<close>, Python strings
  are \<^typ>\<open>string\<close>, tuples are products, lists are lists. Tuples are compared
  lexicographically (\<^verbatim>\<open>Product_Lexorder\<close>) and strings lexicographically by character
  code (\<^verbatim>\<open>List_Lexorder\<close>, \<^verbatim>\<open>Char_ord\<close>), as Python compares them.
  Every \<^verbatim>\<open>raise ValueError(...)\<close> of the source is a constructor of \<open>error\<close>, named
  after the error class that the specification gives to that raise site.
\<close>

subsection \<open>Errors\<close>

text \<open>
  The source raises \<^verbatim>\<open>ValueError\<close> at four places; each is one constructor:
  \<^item> \<open>FormatError s\<close>: \<^verbatim>\<open>int(s, 16)\<close> rejects the literal \<open>s\<close>;
  \<^item> \<open>RangeError cp_field path\<close>:
    \<^verbatim>\<open>raise ValueError(f"invalid codepoint range {cp_field} in {path}")\<close>;
  \<^item> \<open>OverlapError label lo\<close>:
    \<^verbatim>\<open>raise ValueError(f"{label}: overlapping ranges at U+{lo:04X}")\<close>;
  \<^item> \<open>UnmappedSymbolError prop\<close>: \<^verbatim>\<open>raise ValueError(f"unmapped GCB prop: {prop}")\<close>.
  A path is the list of its components.
\<close>

type_synonym path = "string list"

datatype error =
    FormatError string
  | RangeError string path
  | OverlapError string int
  | UnmappedSymbolError string

subsection \<open>Range merging\<close>

text \<open>
  \<^verbatim>\<open>_merge_ranges\<close>: the \<^verbatim>\<open>for\<close> loop over \<^verbatim>\<open>ranges[1:]\<close> is \<open>merge_ranges_loop\<close>, with the
  loop state \<^verbatim>\<open>out\<close>, \<^verbatim>\<open>cur_lo\<close>, \<^verbatim>\<open>cur_hi\<close> as arguments; the final \<^verbatim>\<open>out.append\<close> is the
  base case. \<^verbatim>\<open>sorted(..., key=...)\<close> is the stable \<^const>\<open>sort_key\<close>.
\<close>

fun merge_ranges_loop :: "(int \<times> int) list \<Rightarrow> int \<Rightarrow> int \<Rightarrow> (int \<times> int) list \<Rightarrow> (int \<times> int) list" where
  "merge_ranges_loop out cur_lo cur_hi [] = out @ [(cur_lo, cur_hi)]"
| "merge_ranges_loop out cur_lo cur_hi ((lo, hi) # rest) =
     (if lo \<le> cur_hi + 1 then merge_ranges_loop out cur_lo (max cur_hi hi) rest
      else merge_ranges_loop (out @ [(cur_lo, cur_hi)]) lo hi rest)"

definition merge_ranges :: "(int \<times> int) list \<Rightarrow> (int \<times> int) list" where
  "merge_ranges ranges =
     (if ranges = [] then []
      else (case sort_key (\<lambda>x. (fst x, snd x)) ranges of
              [] \<Rightarrow> []
            | (cur_lo, cur_hi) # rest \<Rightarrow> merge_ranges_loop [] cur_lo cur_hi rest))"

fun merge_valued_ranges_loop ::
  "(int \<times> int \<times> string) list \<Rightarrow> int \<Rightarrow> int \<Rightarrow> string \<Rightarrow> (int \<times> int \<times> string) list
     \<Rightarrow> (int \<times> int \<times> string) list" where
  "merge_valued_ranges_loop out cur_lo cur_hi cur_v [] = out @ [(cur_lo, cur_hi, cur_v)]"
| "merge_valued_ranges_loop out cur_lo cur_hi cur_v ((lo, hi, v) # rest) =
     (if v = cur_v \<and> lo \<le> cur_hi + 1
      then merge_valued_ranges_loop out cur_lo (max cur_hi hi) cur_v rest
      else merge_valued_ranges_loop (out @ [(cur_lo, cur_hi, cur_v)]) lo hi v rest)"

definition merge_valued_ranges :: "(int \<times> int \<times> string) list \<Rightarrow> (int \<times> int \<times> string) list" where
  "merge_valued_ranges ranges =
     (if ranges = [] then []
      else (case sort_key (\<lambda>x. (fst x, fst (snd x), snd (snd x))) ranges of
              [] \<Rightarrow> []
            | (cur_lo, cur_hi, cur_v) # rest \<Rightarrow> merge_valued_ranges_loop [] cur_lo cur_hi cur_v rest))"

text \<open>The set of codepoints that a list of closed intervals covers.\<close>

definition covered :: "(int \<times> int) list \<Rightarrow> int set" where
  "covered rs = (\<Union>(lo, hi) \<in> set rs. {lo..hi})"

definition covered_by :: "string \<Rightarrow> (int \<times> int \<times> string) list \<Rightarrow> int set" where
  "covered_by v rs = (\<Union>(lo, hi, v') \<in> set rs. if v' = v then {lo..hi} else {})"

text \<open>
  Two neighbouring entries that the walk of the merge would coalesce: the second starts
  at most one past the end of the first (and, for valued entries, carries its value).
\<close>

definition mergeable :: "int \<times> int \<Rightarrow> int \<times> int \<Rightarrow> bool" where
  "mergeable a b = (fst b \<le> snd a + 1)"

definition mergeable_valued :: "int \<times> int \<times> string \<Rightarrow> int \<times> int \<times> string \<Rightarrow> bool" where
  "mergeable_valued a b = (snd (snd b) = snd (snd a) \<and> fst b \<le> fst (snd a) + 1)"

text \<open>
  Rows of different values share no codepoint (for rows with \<open>lo \<le> hi\<close>): each codepoint
  has at most one value, as in a well-formed property file.
\<close>

definition value_disjoint :: "(int \<times> int \<times> string) list \<Rightarrow> bool" where
  "value_disjoint rows =
     (\<forall>a \<in> set rows. \<forall>b \<in> set rows.
        snd (snd a) \<noteq> snd (snd b) \<longrightarrow> fst (snd a) < fst b \<or> fst (snd b) < fst a)"

text \<open>
  Entry \<open>k\<close> of a list offends when its \<open>lo\<close> is at most the \<open>hi\<close> of the entry before it,
  or at most \<open>prev\<close> when it is the first entry: the test \<^verbatim>\<open>lo <= prev_hi\<close> of the
  validator's walk.
\<close>

definition offends_at :: "int \<Rightarrow> (int \<times> int \<times> string) list \<Rightarrow> nat \<Rightarrow> bool" where
  "offends_at prev s k = (fst (s ! k) \<le> (if k = 0 then prev else fst (snd (s ! (k - 1)))))"

subsection \<open>Characters and numeric literals\<close>

text \<open>
  Lines are sequences of ASCII characters. \<open>is_space\<close> is the ASCII part of what
  \<^verbatim>\<open>str.strip()\<close> and the pattern \<^verbatim>\<open>\s\<close> treat as whitespace (tab, LF, VT, FF, CR,
  the separators \<^verbatim>\<open>0x1C\<close> to \<^verbatim>\<open>0x1F\<close>, and space); \<open>is_word_char\<close> is the ASCII
  part of \<^verbatim>\<open>\w\<close>.
\<close>

definition is_space :: "char \<Rightarrow> bool" where
  "is_space c =
     (c \<in> set [CHR 0x09, CHR 0x0A, CHR 0x0B, CHR 0x0C, CHR 0x0D,
               CHR 0x1C, CHR 0x1D, CHR 0x1E, CHR 0x1F, CHR 0x20])"

definition strip :: "string \<Rightarrow> string" where
  "strip s = rev (dropWhile is_space (rev (dropWhile is_space s)))"

definition is_hex_char :: "char \<Rightarrow> bool" where
  "is_hex_char c = (c \<in> set ''0123456789ABCDEFabcdef'')"

definition is_cp_char :: "char \<Rightarrow> bool" where
  "is_cp_char c = (is_hex_char c \<or> c = CHR ''.'')"

definition is_prop_char :: "char \<Rightarrow> bool" where
  "is_prop_char c =
     (c \<in> set ''ABCDEFGHIJKLMNOPQRSTUVWXYZabcdefghijklmnopqrstuvwxyz_'')"

definition is_word_char :: "char \<Rightarrow> bool" where
  "is_word_char c = (is_prop_char c \<or> c \<in> set ''0123456789'')"

definition hex_digit_value :: "char \<Rightarrow> int" where
  "hex_digit_value c =
     (if c \<in> set ''0123456789'' then int (of_char c) - 48
      else if c \<in> set ''ABCDEF'' then int (of_char c) - 55
      else int (of_char c) - 87)"

text \<open>
  \<^verbatim>\<open>int(s, 16)\<close> on the strings that reach it here: pieces of a match of
  \<^verbatim>\<open>[0-9A-Fa-f.]+\<close>. Such a piece is accepted exactly when it is a non-empty run of
  hexadecimal digits; the builtin's tolerance of surrounding whitespace, a sign, a
  \<^verbatim>\<open>0x\<close> prefix and underscores needs characters that cannot occur in it.
\<close>

definition int16 :: "string \<Rightarrow> error + int" where
  "int16 s =
     (if s \<noteq> [] \<and> list_all is_hex_char s
      then Inr (foldl (\<lambda>acc c. 16 * acc + hex_digit_value c) 0 s)
      else Inl (FormatError s))"

text \<open>
  \<^verbatim>\<open>fmt_u32\<close>: the format specifications \<^verbatim>\<open>X\<close> (upper-case hexadecimal, a minus sign
  for a negative value) and \<^verbatim>\<open>04X\<close> (the same, zero-padded after the sign to a total
  width of 4).
\<close>

definition hex_char :: "nat \<Rightarrow> char" where
  "hex_char d = ''0123456789ABCDEF'' ! d"

fun hex_of_nat :: "nat \<Rightarrow> string" where
  "hex_of_nat n =
     (if n < 16 then [hex_char n] else hex_of_nat (n div 16) @ [hex_char (n mod 16)])"

definition zero_pad :: "nat \<Rightarrow> string \<Rightarrow> string" where
  "zero_pad w s = replicate (w - length s) (CHR ''0'') @ s"

definition format_X :: "int \<Rightarrow> string" where
  "format_X x = (if x < 0 then CHR ''-'' # hex_of_nat (nat (- x)) else hex_of_nat (nat x))"

definition format_04X :: "int \<Rightarrow> string" where
  "format_04X x =
     (if x < 0 then CHR ''-'' # zero_pad 3 (hex_of_nat (nat (- x)))
      else zero_pad 4 (hex_of_nat (nat x)))"

definition fmt_u32 :: "int \<Rightarrow> string" where
  "fmt_u32 x =
     (if x \<le> 0xFFFF then ''0x'' @ format_04X x @ ''u'' else ''0x'' @ format_X x @ ''u'')"

subsection \<open>Line parser\<close>

text \<open>
  \<^verbatim>\<open>field.split("..", 1)\<close> when \<^verbatim>\<open>".." in field\<close>: the text before and after the leftmost
  occurrence; \<open>None\<close> when there is no occurrence.
\<close>

fun split_dotdot :: "string \<Rightarrow> (string \<times> string) option" where
  "split_dotdot (c # d # rest) =
     (if c = CHR ''.'' \<and> d = CHR ''.'' then Some ([], rest)
      else map_option (\<lambda>(a, b). (c # a, b)) (split_dotdot (d # rest)))"
| "split_dotdot _ = None"

definition parse_codepoint_range :: "string \<Rightarrow> error + (int \<times> int)" where
  "parse_codepoint_range field0 =
     (let field = strip field0 in
      case split_dotdot field of
        Some (a, b) \<Rightarrow>
          (case int16 a of
             Inl e \<Rightarrow> Inl e
           | Inr x \<Rightarrow> (case int16 b of Inl e \<Rightarrow> Inl e | Inr y \<Rightarrow> Inr (x, y)))
      | None \<Rightarrow>
          (case int16 field of
             Inl e \<Rightarrow> Inl e
           | Inr x \<Rightarrow> (case int16 field of Inl e \<Rightarrow> Inl e | Inr y \<Rightarrow> Inr (x, y))))"

text \<open>
  \<^verbatim>\<open>_DATA_RE.match(line)\<close> for \<^verbatim>\<open>^([0-9A-Fa-f.]+)\s*;\s*([A-Za-z_]+)\b\<close>, returning the two
  groups. Each greedy repetition is followed by something its own character class
  excludes, so backtracking never finds a match that the longest runs miss: group 1 is
  the longest prefix of codepoint characters, group 2 the longest run of name
  characters, and \<^verbatim>\<open>\b\<close> holds when the name is followed by the end of the line or by a
  character that is not a word character.
\<close>

definition data_re_match :: "string \<Rightarrow> (string \<times> string) option" where
  "data_re_match line =
     (let g1 = takeWhile is_cp_char line;
          r1 = dropWhile is_cp_char line
      in if g1 = [] then None
         else (case dropWhile is_space r1 of
                 [] \<Rightarrow> None
               | c # r2 \<Rightarrow>
                   if c \<noteq> CHR '';'' then None
                   else (let r3 = dropWhile is_space r2;
                             g2 = takeWhile is_prop_char r3;
                             r4 = dropWhile is_prop_char r3
                         in if g2 = [] then None
                            else if r4 \<noteq> [] \<and> is_word_char (hd r4) then None
                            else Some (g1, g2))))"

text \<open>
  \<^verbatim>\<open>_parse_property_file(path, wanted)\<close>. The lines that \<^verbatim>\<open>_read_lines(path)\<close> returns are
  an argument; \<open>wanted = None\<close> is Python's \<^verbatim>\<open>None\<close>. The loop state is \<^verbatim>\<open>rows\<close>; a
  \<^verbatim>\<open>continue\<close> is the recursive call with \<^verbatim>\<open>rows\<close> unchanged, a \<^verbatim>\<open>raise\<close> ends the loop
  with \<open>Inl\<close>.
\<close>

fun parse_property_loop ::
  "path \<Rightarrow> string set option \<Rightarrow> (int \<times> int \<times> string) list \<Rightarrow> string list
     \<Rightarrow> error + (int \<times> int \<times> string) list" where
  "parse_property_loop path wanted rows [] = Inr rows"
| "parse_property_loop path wanted rows (line0 # rest) =
     (let line = strip line0 in
      if line = [] \<or> hd line = CHR ''#'' then parse_property_loop path wanted rows rest
      else (case data_re_match line of
              None \<Rightarrow> parse_property_loop path wanted rows rest
            | Some (cp_field, prop) \<Rightarrow>
                if wanted \<noteq> None \<and> prop \<notin> the wanted
                then parse_property_loop path wanted rows rest
                else (case parse_codepoint_range cp_field of
                        Inl e \<Rightarrow> Inl e
                      | Inr (lo, hi) \<Rightarrow>
                          if lo < 0 \<or> hi > 0x10FFFF \<or> lo > hi
                          then Inl (RangeError cp_field path)
                          else parse_property_loop path wanted
                                 (rows @ [(lo, hi, prop)]) rest)))"

definition parse_property_file ::
  "path \<Rightarrow> string list \<Rightarrow> string set option \<Rightarrow> error + (int \<times> int \<times> string) list" where
  "parse_property_file path lines wanted = parse_property_loop path wanted [] lines"

subsection \<open>Invariant validator\<close>

text \<open>\<^verbatim>\<open>_assert_disjoint_sorted\<close>; the loop state is \<^verbatim>\<open>prev_hi\<close>, returning is \<open>Inr ()\<close>.\<close>

fun assert_disjoint_loop :: "string \<Rightarrow> int \<Rightarrow> (int \<times> int \<times> string) list \<Rightarrow> error + unit" where
  "assert_disjoint_loop label prev_hi [] = Inr ()"
| "assert_disjoint_loop label prev_hi ((lo, hi, _) # rest) =
     (if lo \<le> prev_hi then Inl (OverlapError label lo)
      else assert_disjoint_loop label hi rest)"

definition assert_disjoint_sorted :: "(int \<times> int \<times> string) list \<Rightarrow> string \<Rightarrow> error + unit" where
  "assert_disjoint_sorted ranges label =
     assert_disjoint_loop label (- 1) (sort_key (\<lambda>x. (fst x, fst (snd x))) ranges)"

subsection \<open>Table emitter\<close>

text \<open>
  The file system is the set of directories and the content of each file, as bytes
  (the UTF-8 encoding of the text written). Failures of the operating system are not
  modelled: \<^verbatim>\<open>mkdir\<close> and \<^verbatim>\<open>write_text\<close> succeed.
\<close>

record filesystem =
  dirs :: "path set"
  files :: "path \<rightharpoonup> string"

text \<open>\<^verbatim>\<open>path.parent.mkdir(parents=True, exist_ok=True)\<close>: the parent and its ancestors.\<close>

definition mkdir_parents :: "path \<Rightarrow> filesystem \<Rightarrow> filesystem" where
  "mkdir_parents p fs = fs\<lparr>dirs := dirs fs \<union> set (prefixes (butlast p))\<rparr>"

definition write_text :: "path \<Rightarrow> string \<Rightarrow> filesystem \<Rightarrow> filesystem" where
  "write_text p text fs = fs\<lparr>files := (files fs)(p \<mapsto> text)\<rparr>"

definition UNICODE_VERSION :: string where
  "UNICODE_VERSION = ''15.1.0''"

definition gcb_map :: "string \<rightharpoonup> string" where
  "gcb_map = map_of
     [(''CR'', ''ZR_GCB_CR''),
      (''LF'', ''ZR_GCB_LF''),
      (''Control'', ''ZR_GCB_CONTROL''),
      (''Extend'', ''ZR_GCB_EXTEND''),
      (''ZWJ'', ''ZR_GCB_ZWJ''),
      (''Regional_Indicator'', ''ZR_GCB_REGIONAL_INDICATOR''),
      (''Prepend'', ''ZR_GCB_PREPEND''),
      (''SpacingMark'', ''ZR_GCB_SPACINGMARK''),
      (''L'', ''ZR_GCB_L''),
      (''V'', ''ZR_GCB_V''),
      (''T'', ''ZR_GCB_T''),
      (''LV'', ''ZR_GCB_LV''),
      (''LVT'', ''ZR_GCB_LVT'')]"

text \<open>\<^verbatim>\<open>sep.join(parts)\<close>.\<close>

fun join :: "string \<Rightarrow> string list \<Rightarrow> string" where
  "join sep [] = []"
| "join sep [x] = x"
| "join sep (x # y # rest) = x @ sep @ join sep (y # rest)"

definition newline :: string where
  "newline = [CHR 0x0A]"

text \<open>
  \<^verbatim>\<open>emit_ranges8\<close>: the loop state is \<^verbatim>\<open>lines\<close>; an unmapped property raises in the middle
  of the loop.
\<close>

fun emit_ranges8_loop :: "string list \<Rightarrow> (int \<times> int \<times> string) list \<Rightarrow> error + string list" where
  "emit_ranges8_loop lines [] = Inr lines"
| "emit_ranges8_loop lines ((lo, hi, prop) # rest) =
     (case gcb_map prop of
        None \<Rightarrow> Inl (UnmappedSymbolError prop)
      | Some enum_name \<Rightarrow>
          emit_ranges8_loop
            (lines @ [''  {'' @ fmt_u32 lo @ '', '' @ fmt_u32 hi @ '', (uint8_t)'' @ enum_name
                        @ '', {0u, 0u, 0u}},''])
            rest)"

definition emit_ranges8 :: "string \<Rightarrow> (int \<times> int \<times> string) list \<Rightarrow> error + string" where
  "emit_ranges8 name rows =
     (case emit_ranges8_loop [''static const zr_unicode_range8_t '' @ name @ ''[] = {''] rows of
        Inl e \<Rightarrow> Inl e
      | Inr lines \<Rightarrow> Inr (join newline (lines @ [''};''])))"

fun emit_ranges_loop :: "string list \<Rightarrow> (int \<times> int) list \<Rightarrow> string list" where
  "emit_ranges_loop lines [] = lines"
| "emit_ranges_loop lines ((lo, hi) # rest) =
     emit_ranges_loop (lines @ [''  {'' @ fmt_u32 lo @ '', '' @ fmt_u32 hi @ ''},'']) rest"

definition emit_ranges :: "string \<Rightarrow> (int \<times> int) list \<Rightarrow> string" where
  "emit_ranges name rows =
     join newline
       (emit_ranges_loop [''static const zr_unicode_range_t '' @ name @ ''[] = {''] rows @ [''};''])"

text \<open>
  The header after \<^verbatim>\<open>textwrap.dedent\<close>; the dash of its second line is U+2014, three
  bytes in UTF-8.
\<close>

definition hdr :: string where
  "hdr =
     ''/*'' @ newline @
     ''  src/unicode/zr_unicode_data_tables_15_1_0.inc '' @ [CHR 0xE2, CHR 0x80, CHR 0x94] @
       '' Generated Unicode '' @ UNICODE_VERSION @ '' tables.'' @ newline @
     newline @
     ''  Why: Provides immutable, deterministic property ranges for grapheme iteration and width.''
       @ newline @
     newline @
     ''  Generated by: scripts/unicode/gen_unicode_tables.py'' @ newline @
     ''*/'' @ newline"

text \<open>
  \<^verbatim>\<open>_emit_inc\<close> returns the file system it leaves behind together with its outcome: the
  directory is created first, the body is built (the four tables in the order of the
  list, so an unmapped property raises before anything else is formatted), and
  \<^verbatim>\<open>write_text\<close> is the last statement.
\<close>

definition emit_inc ::
  "filesystem \<Rightarrow> path \<Rightarrow> (int \<times> int \<times> string) list \<Rightarrow> (int \<times> int) list \<Rightarrow> (int \<times> int) list
     \<Rightarrow> (int \<times> int) list \<Rightarrow> filesystem \<times> (error + unit)" where
  "emit_inc fs out_path gcb ep emoji_pres eaw_wide =
     (let fs1 = mkdir_parents out_path fs in
      case emit_ranges8 ''kGcbRanges'' gcb of
        Inl e \<Rightarrow> (fs1, Inl e)
      | Inr t1 \<Rightarrow>
          (let body = join (newline @ newline)
                        [t1,
                         emit_ranges ''kExtendedPictographicRanges'' ep,
                         emit_ranges ''kEmojiPresentationRanges'' emoji_pres,
                         emit_ranges ''kEawWideRanges'' eaw_wide]
           in (write_text out_path (hdr @ newline @ body @ newline) fs1, Inr ())))"

subsection \<open>The run\<close>

text \<open>
  \<^verbatim>\<open>main\<close> after argument parsing and \<^verbatim>\<open>_ensure_sources\<close>: \<open>srcs\<close> maps each resource
  name to its path and \<open>read_lines\<close> is \<^verbatim>\<open>_read_lines\<close>, the lines of each source file.
  The result is the file system left behind and either the error raised or the return
  value \<open>0\<close>.
\<close>

definition gcb_props :: "string set" where
  "gcb_props =
     {''CR'', ''LF'', ''Control'', ''Extend'', ''ZWJ'', ''Regional_Indicator'', ''Prepend'',
      ''SpacingMark'', ''L'', ''V'', ''T'', ''LV'', ''LVT''}"

definition main_run ::
  "filesystem \<Rightarrow> (string \<Rightarrow> path) \<Rightarrow> (path \<Rightarrow> string list) \<Rightarrow> path \<Rightarrow> filesystem \<times> (error + int)" where
  "main_run fs srcs read_lines out =
     (case parse_property_file (srcs ''GraphemeBreakProperty.txt'')
             (read_lines (srcs ''GraphemeBreakProperty.txt'')) (Some gcb_props) of
        Inl e \<Rightarrow> (fs, Inl e)
      | Inr gcb_rows0 \<Rightarrow>
     (let gcb_rows = merge_valued_ranges gcb_rows0 in
      case assert_disjoint_sorted gcb_rows ''GCB'' of
        Inl e \<Rightarrow> (fs, Inl e)
      | Inr _ \<Rightarrow>
     (case parse_property_file (srcs ''emoji-data.txt'') (read_lines (srcs ''emoji-data.txt''))
             (Some {''Extended_Pictographic'', ''Emoji_Presentation''}) of
        Inl e \<Rightarrow> (fs, Inl e)
      | Inr emoji_rows \<Rightarrow>
     (let ep = merge_ranges
                 (map (\<lambda>(lo, hi, prop). (lo, hi))
                    (filter (\<lambda>(lo, hi, prop). prop = ''Extended_Pictographic'') emoji_rows));
          emoji_pres = merge_ranges
                 (map (\<lambda>(lo, hi, prop). (lo, hi))
                    (filter (\<lambda>(lo, hi, prop). prop = ''Emoji_Presentation'') emoji_rows))
      in
      case parse_property_file (srcs ''EastAsianWidth.txt'') (read_lines (srcs ''EastAsianWidth.txt''))
             (Some {''W'', ''F''}) of
        Inl e \<Rightarrow> (fs, Inl e)
      | Inr eaw_rows \<Rightarrow>
     (let eaw_wide = merge_ranges (map (\<lambda>(lo, hi, prop). (lo, hi)) eaw_rows) in
      case emit_inc fs out gcb_rows ep emoji_pres eaw_wide of
        (fs', Inl e) \<Rightarrow> (fs', Inl e)
      | (fs', Inr _) \<Rightarrow> (fs', Inr 0))))))"

subsection \<open>Notions used in the statements about parser and emitter\<close>


text \<open>
  The text of the output artifact for a rendered valued table \<open>t1\<close> and the three plain
  tables: what \<^verbatim>\<open>_emit_inc\<close> passes to \<^verbatim>\<open>write_text\<close>.
\<close>

definition table_text ::
  "string \<Rightarrow> (int \<times> int) list \<Rightarrow> (int \<times> int) list \<Rightarrow> (int \<times> int) list \<Rightarrow> string" where
  "table_text t1 ep emoji_pres eaw_wide =
     hdr @ newline
       @ join (newline @ newline)
           [t1,
            emit_ranges ''kExtendedPictographicRanges'' ep,
            emit_ranges ''kEmojiPresentationRanges'' emoji_pres,
            emit_ranges ''kEawWideRanges'' eaw_wide]
       @ newline"

text \<open>The value of a string of hexadecimal digits, most significant digit first.\<close>

definition hex_value :: "string \<Rightarrow> int" where
  "hex_value s = foldl (\<lambda>acc c. 16 * acc + hex_digit_value c) 0 s"

section \<open>Verification\<close>

subsection \<open>Properties of the unvalued merge\<close>

lemma merge_ranges_loop_out:
  "merge_ranges_loop out cl ch xs = out @ merge_ranges_loop [] cl ch xs"
proof (induction xs arbitrary: out cl ch)
  case Nil
  show ?case by simp
next
  case (Cons x xs)
  obtain lo hi where x: "x = (lo, hi)" by (cases x)
  show ?case
    using Cons.IH [of out cl "max ch hi"] Cons.IH [of "out @ [(cl, ch)]" lo hi]
          Cons.IH [of "[(cl, ch)]" lo hi]
    by (simp add: x)
qed

lemma merge_ranges_loop_step:
  "merge_ranges_loop [] cl ch ((lo, hi) # rest) =
     (if lo \<le> ch + 1 then merge_ranges_loop [] cl (max ch hi) rest
      else (cl, ch) # merge_ranges_loop [] lo hi rest)"
  using merge_ranges_loop_out [of "[(cl, ch)]" lo hi rest] by simp

declare merge_ranges_loop.simps(2) [simp del]

lemma covered_Cons: "covered ((lo, hi) # rs) = {lo..hi} \<union> covered rs"
  by (simp add: covered_def)

lemma interval_join:
  fixes cl ch lo hi :: int
  assumes "cl \<le> lo" "lo \<le> ch + 1"
  shows "{cl..max ch hi} = {cl..ch} \<union> {lo..hi}"
  using assms by auto

lemma merge_ranges_loop_covered:
  "\<forall>(lo, hi) \<in> set xs. cl \<le> lo \<Longrightarrow> sorted (map fst xs) \<Longrightarrow>
   covered (merge_ranges_loop [] cl ch xs) = {cl..ch} \<union> covered xs"
proof (induction xs arbitrary: cl ch)
  case Nil
  show ?case by (simp add: covered_def)
next
  case (Cons x xs)
  obtain lo hi where x: "x = (lo, hi)" by (cases x)
  have lo: "cl \<le> lo" using Cons.prems(1) by (simp add: x)
  have srt: "sorted (map fst xs)" using Cons.prems(2) by simp
  have ge: "\<forall>(l, h) \<in> set xs. lo \<le> l" using Cons.prems(2) by (auto simp: x)
  show ?case
  proof (cases "lo \<le> ch + 1")
    case True
    have "\<forall>(l, h) \<in> set xs. cl \<le> l" using ge lo by auto
    from Cons.IH [OF this srt, of "max ch hi"] True lo
    show ?thesis
      by (simp add: x merge_ranges_loop_step covered_Cons interval_join [OF lo True] Un_assoc)
  next
    case False
    from Cons.IH [OF ge srt, of hi] False
    show ?thesis
      by (simp add: x merge_ranges_loop_step covered_Cons Un_assoc)
  qed
qed

lemma merge_ranges_loop_bounds:
  "cl \<le> ch \<Longrightarrow> \<forall>(lo, hi) \<in> set xs. cl \<le> lo \<and> lo \<le> hi \<Longrightarrow> sorted (map fst xs) \<Longrightarrow>
   \<forall>(a, b) \<in> set (merge_ranges_loop [] cl ch xs). cl \<le> a \<and> a \<le> b"
proof (induction xs arbitrary: cl ch)
  case Nil
  then show ?case by simp
next
  case (Cons x xs)
  obtain lo hi where x: "x = (lo, hi)" by (cases x)
  have lo: "cl \<le> lo" "lo \<le> hi" using Cons.prems(2) by (simp_all add: x)
  have srt: "sorted (map fst xs)" using Cons.prems(3) by simp
  have wf: "\<forall>(l, h) \<in> set xs. l \<le> h" using Cons.prems(2) by auto
  have ge: "\<forall>(l, h) \<in> set xs. lo \<le> l" using Cons.prems(3) by (auto simp: x)
  show ?case
  proof (cases "lo \<le> ch + 1")
    case True
    have a: "cl \<le> max ch hi" using Cons.prems(1) by simp
    have b: "\<forall>(l, h) \<in> set xs. cl \<le> l \<and> l \<le> h" using ge lo wf by fastforce
    from Cons.IH [OF a b srt] True show ?thesis
      by (simp add: x merge_ranges_loop_step)
  next
    case False
    have b: "\<forall>(l, h) \<in> set xs. lo \<le> l \<and> l \<le> h" using ge wf by fastforce
    from Cons.IH [OF lo(2) b srt] False lo Cons.prems(1) show ?thesis
      by (fastforce simp add: x merge_ranges_loop_step)
  qed
qed

lemma merge_ranges_loop_gaps:
  "cl \<le> ch \<Longrightarrow> \<forall>(lo, hi) \<in> set xs. cl \<le> lo \<and> lo \<le> hi \<Longrightarrow> sorted (map fst xs) \<Longrightarrow>
   sorted_wrt (\<lambda>a b. snd a + 1 < fst b) (merge_ranges_loop [] cl ch xs)"
proof (induction xs arbitrary: cl ch)
  case Nil
  then show ?case by simp
next
  case (Cons x xs)
  obtain lo hi where x: "x = (lo, hi)" by (cases x)
  have lo: "cl \<le> lo" "lo \<le> hi" using Cons.prems(2) by (simp_all add: x)
  have srt: "sorted (map fst xs)" using Cons.prems(3) by simp
  have wf: "\<forall>(l, h) \<in> set xs. l \<le> h" using Cons.prems(2) by auto
  have ge: "\<forall>(l, h) \<in> set xs. lo \<le> l" using Cons.prems(3) by (auto simp: x)
  show ?case
  proof (cases "lo \<le> ch + 1")
    case True
    have a: "cl \<le> max ch hi" using Cons.prems(1) by simp
    have b: "\<forall>(l, h) \<in> set xs. cl \<le> l \<and> l \<le> h" using ge lo wf by fastforce
    from Cons.IH [OF a b srt] True show ?thesis
      by (simp add: x merge_ranges_loop_step)
  next
    case False
    have b: "\<forall>(l, h) \<in> set xs. lo \<le> l \<and> l \<le> h" using ge wf by fastforce
    have c: "\<forall>(a, b) \<in> set (merge_ranges_loop [] lo hi xs). lo \<le> a \<and> a \<le> b"
      by (rule merge_ranges_loop_bounds [OF lo(2) b srt])
    from Cons.IH [OF lo(2) b srt] False c show ?thesis
      by (fastforce simp add: x merge_ranges_loop_step)
  qed
qed

lemma sorted_key_fst:
  "sorted (map (\<lambda>x. (fst x, snd x)) (xs :: (int \<times> int) list)) \<Longrightarrow> sorted (map fst xs)"
  by (induction xs) (auto simp: less_eq_prod_def)

text \<open>
  Claim C1. For every list of input ranges with \<open>lo \<le> hi\<close> in each pair, the output of
  \<open>merge_ranges\<close> is strictly sorted by \<open>lo\<close>, every earlier output range ends before
  every later one starts (pairwise non-overlapping), and the output covers exactly the
  codepoints that the input covers.
\<close>

theorem merge_ranges_disjoint_cover:
  assumes wf: "\<forall>(lo, hi) \<in> set ranges. lo \<le> hi"
  shows "sorted_wrt (\<lambda>a b. fst a < fst b) (merge_ranges ranges)
       \<and> sorted_wrt (\<lambda>a b. snd a < fst b) (merge_ranges ranges)
       \<and> covered (merge_ranges ranges) = covered ranges"
proof (cases "sort_key (\<lambda>x. (fst x, snd x)) ranges")
  case Nil
  then have "ranges = []" using length_sort [of "\<lambda>x. (fst x, snd x)" ranges] by simp
  then show ?thesis by (simp add: merge_ranges_def)
next
  case (Cons c rest)
  obtain cl ch where c: "c = (cl, ch)" by (cases c)
  let ?s = "sort_key (\<lambda>x. (fst x, snd x)) ranges"
  have ne: "ranges \<noteq> []" using Cons by auto
  have mr: "merge_ranges ranges = merge_ranges_loop [] cl ch rest"
    using ne Cons c by (simp add: merge_ranges_def)
  have "set ?s = set ranges" by (rule set_sort)
  then have set_s: "set ranges = insert (cl, ch) (set rest)"
    unfolding Cons c by simp
  have "sorted (map fst ?s)" by (rule sorted_key_fst) (rule sorted_sort_key)
  then have srt: "sorted (map fst rest)" and ge: "\<forall>(l, h) \<in> set rest. cl \<le> l"
    using Cons c by auto
  have clch: "cl \<le> ch" using wf set_s by auto
  have wf': "\<forall>(l, h) \<in> set rest. cl \<le> l \<and> l \<le> h" using wf set_s ge by auto
  have bounds: "\<forall>(a, b) \<in> set (merge_ranges_loop [] cl ch rest). cl \<le> a \<and> a \<le> b"
    by (rule merge_ranges_loop_bounds [OF clch wf' srt])
  have gaps: "sorted_wrt (\<lambda>a b. snd a + 1 < fst b) (merge_ranges_loop [] cl ch rest)"
    by (rule merge_ranges_loop_gaps [OF clch wf' srt])
  have g1: "sorted_wrt (\<lambda>a b. snd a < fst b) (merge_ranges_loop [] cl ch rest)"
    by (rule sorted_wrt_mono_rel [OF _ gaps]) auto
  have g2: "sorted_wrt (\<lambda>a b. fst a < fst b) (merge_ranges_loop [] cl ch rest)"
    by (rule sorted_wrt_mono_rel [OF _ gaps]) (use bounds in fastforce)
  have cov: "covered (merge_ranges_loop [] cl ch rest) = {cl..ch} \<union> covered rest"
    by (rule merge_ranges_loop_covered [OF ge srt])
  have "covered ranges = {cl..ch} \<union> covered rest"
    by (simp add: covered_def set_s)
  with cov g1 g2 mr show ?thesis by simp
qed

theorem merge_ranges_disjoint_cover_witness:
  "merge_ranges [(0x370, 0x374), (0x300, 0x36F), (0x10, 0x20)] = [(0x10, 0x20), (0x300, 0x374)]
   \<and> sorted_wrt (\<lambda>a b. fst a < fst b) (merge_ranges [(0x370, 0x374), (0x300, 0x36F), (0x10, 0x20)])
   \<and> sorted_wrt (\<lambda>a b. snd a < fst b) (merge_ranges [(0x370, 0x374), (0x300, 0x36F), (0x10, 0x20)])
   \<and> covered (merge_ranges [(0x370, 0x374), (0x300, 0x36F), (0x10, 0x20)])
       = covered [(0x370, 0x374), (0x300, 0x36F), (0x10, 0x20)]"
  using merge_ranges_disjoint_cover [of "[(0x370, 0x374), (0x300, 0x36F), (0x10, 0x20)]"]
  by (simp add: merge_ranges_def merge_ranges_loop.simps(2))

subsection \<open>Properties of the valued merge\<close>

lemma key2_id: "(\<lambda>x::int \<times> int. (fst x, snd x)) = (\<lambda>x. x)"
  by simp

lemma key3_id: "(\<lambda>x::int \<times> int \<times> string. (fst x, fst (snd x), snd (snd x))) = (\<lambda>x. x)"
  by simp

lemma merge_ranges_sort:
  "merge_ranges ranges =
     (case sort ranges of [] \<Rightarrow> [] | (cl, ch) # rest \<Rightarrow> merge_ranges_loop [] cl ch rest)"
proof (cases "ranges = []")
  case True
  then show ?thesis by (simp add: merge_ranges_def)
next
  case False
  then show ?thesis by (simp add: merge_ranges_def key2_id)
qed

lemma merge_valued_ranges_sort:
  "merge_valued_ranges ranges =
     (case sort ranges of [] \<Rightarrow> []
      | (cl, ch, cv) # rest \<Rightarrow> merge_valued_ranges_loop [] cl ch cv rest)"
proof (cases "ranges = []")
  case True
  then show ?thesis by (simp add: merge_valued_ranges_def)
next
  case False
  then show ?thesis by (simp add: merge_valued_ranges_def key3_id)
qed

lemma merge_valued_ranges_loop_out:
  "merge_valued_ranges_loop out cl ch cv xs = out @ merge_valued_ranges_loop [] cl ch cv xs"
proof (induction xs arbitrary: out cl ch cv)
  case Nil
  show ?case by simp
next
  case (Cons x xs)
  obtain lo hi v where x: "x = (lo, hi, v)" by (cases x)
  show ?case
    using Cons.IH [of out cl "max ch hi" cv] Cons.IH [of "out @ [(cl, ch, cv)]" lo hi v]
          Cons.IH [of "[(cl, ch, cv)]" lo hi v]
    by (simp add: x)
qed

lemma merge_valued_ranges_loop_step:
  "merge_valued_ranges_loop [] cl ch cv ((lo, hi, v) # rest) =
     (if v = cv \<and> lo \<le> ch + 1 then merge_valued_ranges_loop [] cl (max ch hi) cv rest
      else (cl, ch, cv) # merge_valued_ranges_loop [] lo hi v rest)"
  using merge_valued_ranges_loop_out [of "[(cl, ch, cv)]" lo hi v rest] by simp

declare merge_valued_ranges_loop.simps(2) [simp del]

lemma merge_valued_ranges_loop_head:
  "\<exists>b tl. merge_valued_ranges_loop [] cl ch cv xs = (cl, b, cv) # tl \<and> ch \<le> b"
proof (induction xs arbitrary: ch)
  case Nil
  show ?case by simp
next
  case (Cons x xs)
  obtain lo hi v where x: "x = (lo, hi, v)" by (cases x)
  show ?case
  proof (cases "v = cv \<and> lo \<le> ch + 1")
    case True
    from Cons.IH [of "max ch hi"] True show ?thesis
      by (auto simp: x merge_valued_ranges_loop_step)
  next
    case False
    then show ?thesis by (auto simp: x merge_valued_ranges_loop_step)
  qed
qed

lemma merge_ranges_loop_head:
  "\<exists>b tl. merge_ranges_loop [] cl ch xs = (cl, b) # tl \<and> ch \<le> b"
proof (induction xs arbitrary: ch)
  case Nil
  show ?case by simp
next
  case (Cons x xs)
  obtain lo hi where x: "x = (lo, hi)" by (cases x)
  show ?case
  proof (cases "lo \<le> ch + 1")
    case True
    from Cons.IH [of "max ch hi"] True show ?thesis
      by (auto simp: x merge_ranges_loop_step)
  next
    case False
    then show ?thesis by (auto simp: x merge_ranges_loop_step)
  qed
qed

lemma covered_by_Cons:
  "covered_by v ((lo, hi, w) # rs) = (if w = v then {lo..hi} else {}) \<union> covered_by v rs"
  by (simp add: covered_by_def)

lemma merge_valued_ranges_loop_covered:
  "\<forall>(lo, hi, w) \<in> set xs. cl \<le> lo \<Longrightarrow> sorted (map fst xs) \<Longrightarrow>
   covered_by v (merge_valued_ranges_loop [] cl ch cv xs)
     = (if cv = v then {cl..ch} else {}) \<union> covered_by v xs"
proof (induction xs arbitrary: cl ch cv)
  case Nil
  show ?case by (simp add: covered_by_def)
next
  case (Cons x xs)
  obtain lo hi w where x: "x = (lo, hi, w)" by (cases x)
  have lo: "cl \<le> lo" using Cons.prems(1) by (simp add: x)
  have srt: "sorted (map fst xs)" using Cons.prems(2) by simp
  have ge: "\<forall>(l, h, u) \<in> set xs. lo \<le> l" using Cons.prems(2) by (auto simp: x)
  show ?case
  proof (cases "w = cv \<and> lo \<le> ch + 1")
    case True
    then have adj: "lo \<le> ch + 1" and w: "w = cv" by simp_all
    have "\<forall>(l, h, u) \<in> set xs. cl \<le> l" using ge lo by auto
    from Cons.IH [OF this srt, of "max ch hi" cv] True
    show ?thesis
      by (simp add: x merge_valued_ranges_loop_step covered_by_Cons interval_join [OF lo adj] Un_assoc)
  next
    case False
    then have step: "merge_valued_ranges_loop [] cl ch cv (x # xs)
        = (cl, ch, cv) # merge_valued_ranges_loop [] lo hi w xs"
      by (auto simp: x merge_valued_ranges_loop_step)
    show ?thesis
      unfolding step covered_by_Cons Cons.IH [OF ge srt, of hi w]
      by (simp add: x covered_by_Cons Un_assoc)
  qed
qed

lemma sorted_fst3: "sorted (xs :: (int \<times> int \<times> string) list) \<Longrightarrow> sorted (map fst xs)"
  by (induction xs) (auto simp: less_eq_prod_def)

lemma merge_valued_ranges_covered_by:
  "covered_by v (merge_valued_ranges rows) = covered_by v rows"
proof (cases "sort rows")
  case Nil
  then have "rows = []" using length_sort [of "\<lambda>x. x" rows] by simp
  then show ?thesis by (simp add: merge_valued_ranges_def)
next
  case (Cons c rest)
  obtain cl ch cv where c: "c = (cl, ch, cv)" by (cases c)
  have mr: "merge_valued_ranges rows = merge_valued_ranges_loop [] cl ch cv rest"
    using Cons c by (simp add: merge_valued_ranges_sort)
  have "set (sort rows) = set rows" by simp
  then have set_s: "set rows = insert (cl, ch, cv) (set rest)"
    unfolding Cons c by simp
  have "sorted (map fst (sort rows))" by (rule sorted_fst3) simp
  then have srt: "sorted (map fst rest)" and ge: "\<forall>(l, h, u) \<in> set rest. cl \<le> l"
    using Cons c by auto
  have "covered_by v rows = (if cv = v then {cl..ch} else {}) \<union> covered_by v rest"
    by (simp add: covered_by_def set_s)
  with merge_valued_ranges_loop_covered [OF ge srt, of v ch cv] mr show ?thesis by simp
qed

text \<open>
  Claim C10. For every list of valued rows and every value \<open>v\<close>, the codepoints covered
  by the output ranges of \<open>merge_valued_ranges\<close> tagged \<open>v\<close> are exactly the codepoints
  covered by the input rows tagged \<open>v\<close>: no codepoint is dropped and none changes its
  value.
\<close>

theorem merge_valued_ranges_preserves_values:
  "covered_by v (merge_valued_ranges rows) = covered_by v rows"
  by (rule merge_valued_ranges_covered_by)

theorem merge_valued_ranges_preserves_values_witness:
  "merge_valued_ranges [(3, 7, ''B''), (6, 9, ''A''), (1, 5, ''A'')]
     = [(1, 5, ''A''), (3, 7, ''B''), (6, 9, ''A'')]
   \<and> covered_by ''A'' [(1, 5, ''A''), (3, 7, ''B''), (6, 9, ''A'')]
     = covered_by ''A'' [(3, 7, ''B''), (6, 9, ''A''), (1, 5, ''A'')]"
  using merge_valued_ranges_preserves_values [of "''A''" "[(3, 7, ''B''), (6, 9, ''A''), (1, 5, ''A'')]"]
  by (simp add: merge_valued_ranges_def merge_valued_ranges_loop.simps(2))

subsection \<open>Idempotence and order independence\<close>

lemma sort_mset_cong: "mset xs = mset ys \<Longrightarrow> sort xs = sort (ys :: 'a :: linorder list)"
  by (rule properties_for_sort) simp_all

lemma merge_ranges_lower:
  "sorted xs \<Longrightarrow> \<forall>r \<in> set xs. (cl, ch) \<le> r \<Longrightarrow>
   sorted (merge_ranges_loop [] cl ch xs) \<and> (\<forall>r \<in> set (merge_ranges_loop [] cl ch xs). (cl, ch) \<le> r)"
proof (induction xs arbitrary: cl ch)
  case Nil
  show ?case by simp
next
  case (Cons x xs)
  obtain lo hi where x: "x = (lo, hi)" by (cases x)
  have srt: "sorted xs" and ge: "\<forall>r \<in> set xs. (lo, hi) \<le> r" and c: "(cl, ch) \<le> (lo, hi)"
    using Cons.prems by (simp_all add: x)
  show ?case
  proof (cases "lo \<le> ch + 1")
    case True
    let ?L = "merge_ranges_loop [] cl (max ch hi) xs"
    have step: "merge_ranges_loop [] cl ch (x # xs) = ?L"
      using True by (simp add: x merge_ranges_loop_step)
    have c': "\<forall>r \<in> set xs. (cl, max ch hi) \<le> r"
    proof
      fix r assume r: "r \<in> set xs"
      have a: "(cl, ch) \<le> r" using Cons.prems(2) r by simp
      have b: "(lo, hi) \<le> r" using ge r by simp
      have "(cl, hi) \<le> (lo, hi)" using c by auto
      then have "(cl, hi) \<le> r" using b by (rule order_trans)
      with a show "(cl, max ch hi) \<le> r" by (cases "ch \<le> hi") (simp_all add: max_def)
    qed
    have up: "(cl, ch) \<le> (cl, max ch hi)" by simp
    from Cons.IH [OF srt c'] have ih: "sorted ?L" "\<forall>r \<in> set ?L. (cl, max ch hi) \<le> r"
      by simp_all
    have "\<forall>r \<in> set ?L. (cl, ch) \<le> r" using ih(2) up order_trans by blast
    with ih(1) show ?thesis unfolding step by simp
  next
    case False
    let ?L = "merge_ranges_loop [] lo hi xs"
    have step: "merge_ranges_loop [] cl ch (x # xs) = (cl, ch) # ?L"
      using False by (simp add: x merge_ranges_loop_step)
    from Cons.IH [OF srt ge] have ih: "sorted ?L" "\<forall>r \<in> set ?L. (lo, hi) \<le> r"
      by simp_all
    have "\<forall>r \<in> set ?L. (cl, ch) \<le> r" using ih(2) c order_trans by blast
    with ih(1) show ?thesis unfolding step by simp
  qed
qed

lemma merge_valued_ranges_lower:
  "sorted xs \<Longrightarrow> \<forall>r \<in> set xs. (cl, ch, cv) \<le> r \<Longrightarrow>
   sorted (merge_valued_ranges_loop [] cl ch cv xs)
   \<and> (\<forall>r \<in> set (merge_valued_ranges_loop [] cl ch cv xs). (cl, ch, cv) \<le> r)"
proof (induction xs arbitrary: cl ch cv)
  case Nil
  show ?case by simp
next
  case (Cons x xs)
  obtain lo hi v where x: "x = (lo, hi, v)" by (cases x)
  have srt: "sorted xs" and ge: "\<forall>r \<in> set xs. (lo, hi, v) \<le> r"
    and c: "(cl, ch, cv) \<le> (lo, hi, v)"
    using Cons.prems by (simp_all add: x)
  show ?case
  proof (cases "v = cv \<and> lo \<le> ch + 1")
    case True
    then have v: "v = cv" by simp
    let ?L = "merge_valued_ranges_loop [] cl (max ch hi) cv xs"
    have step: "merge_valued_ranges_loop [] cl ch cv (x # xs) = ?L"
      using True by (simp add: x merge_valued_ranges_loop_step)
    have c': "\<forall>r \<in> set xs. (cl, max ch hi, cv) \<le> r"
    proof
      fix r assume r: "r \<in> set xs"
      have a: "(cl, ch, cv) \<le> r" using Cons.prems(2) r by simp
      have b: "(lo, hi, cv) \<le> r" using ge r v by simp
      have "(cl, hi, cv) \<le> (lo, hi, cv)" using c by auto
      then have "(cl, hi, cv) \<le> r" using b by (rule order_trans)
      with a show "(cl, max ch hi, cv) \<le> r" by (cases "ch \<le> hi") (simp_all add: max_def)
    qed
    have up: "(cl, ch, cv) \<le> (cl, max ch hi, cv)" by simp
    from Cons.IH [OF srt c'] have ih: "sorted ?L" "\<forall>r \<in> set ?L. (cl, max ch hi, cv) \<le> r"
      by simp_all
    have "\<forall>r \<in> set ?L. (cl, ch, cv) \<le> r" using ih(2) up order_trans by blast
    with ih(1) show ?thesis unfolding step by simp
  next
    case False
    let ?L = "merge_valued_ranges_loop [] lo hi v xs"
    have step: "merge_valued_ranges_loop [] cl ch cv (x # xs) = (cl, ch, cv) # ?L"
      using False by (auto simp: x merge_valued_ranges_loop_step)
    from Cons.IH [OF srt ge] have ih: "sorted ?L" "\<forall>r \<in> set ?L. (lo, hi, v) \<le> r"
      by simp_all
    have "\<forall>r \<in> set ?L. (cl, ch, cv) \<le> r" using ih(2) c order_trans by blast
    with ih(1) show ?thesis unfolding step by simp
  qed
qed

lemma merge_ranges_loop_separated:
  "successively (\<lambda>a b. \<not> mergeable a b) (merge_ranges_loop [] cl ch xs)"
proof (induction xs arbitrary: cl ch)
  case Nil
  show ?case by simp
next
  case (Cons x xs)
  obtain lo hi where x: "x = (lo, hi)" by (cases x)
  show ?case
  proof (cases "lo \<le> ch + 1")
    case True
    with Cons.IH [of cl "max ch hi"] show ?thesis by (simp add: x merge_ranges_loop_step)
  next
    case False
    obtain b tl where h: "merge_ranges_loop [] lo hi xs = (lo, b) # tl"
      using merge_ranges_loop_head [of lo hi xs] by blast
    from Cons.IH [of lo hi] False show ?thesis
      by (simp add: x merge_ranges_loop_step h mergeable_def)
  qed
qed

lemma merge_valued_ranges_loop_separated:
  "successively (\<lambda>a b. \<not> mergeable_valued a b) (merge_valued_ranges_loop [] cl ch cv xs)"
proof (induction xs arbitrary: cl ch cv)
  case Nil
  show ?case by simp
next
  case (Cons x xs)
  obtain lo hi v where x: "x = (lo, hi, v)" by (cases x)
  show ?case
  proof (cases "v = cv \<and> lo \<le> ch + 1")
    case True
    with Cons.IH [of cl "max ch hi" cv] show ?thesis by (simp add: x merge_valued_ranges_loop_step)
  next
    case False
    then have step: "merge_valued_ranges_loop [] cl ch cv (x # xs)
        = (cl, ch, cv) # merge_valued_ranges_loop [] lo hi v xs"
      by (auto simp: x merge_valued_ranges_loop_step)
    obtain b tl where h: "merge_valued_ranges_loop [] lo hi v xs = (lo, b, v) # tl"
      using merge_valued_ranges_loop_head [of lo hi v xs] by blast
    from Cons.IH [of lo hi v] False show ?thesis
      unfolding step by (auto simp: h mergeable_valued_def)
  qed
qed

lemma merge_ranges_loop_fixed:
  "successively (\<lambda>a b. \<not> mergeable a b) ((cl, ch) # xs) \<Longrightarrow>
   merge_ranges_loop [] cl ch xs = (cl, ch) # xs"
proof (induction xs arbitrary: cl ch)
  case Nil
  show ?case by simp
next
  case (Cons x xs)
  obtain lo hi where x: "x = (lo, hi)" by (cases x)
  from Cons.prems have "\<not> lo \<le> ch + 1" and "successively (\<lambda>a b. \<not> mergeable a b) ((lo, hi) # xs)"
    by (simp_all add: x mergeable_def)
  with Cons.IH [of lo hi] show ?case by (simp add: x merge_ranges_loop_step)
qed

lemma merge_valued_ranges_loop_fixed:
  "successively (\<lambda>a b. \<not> mergeable_valued a b) ((cl, ch, cv) # xs) \<Longrightarrow>
   merge_valued_ranges_loop [] cl ch cv xs = (cl, ch, cv) # xs"
proof (induction xs arbitrary: cl ch cv)
  case Nil
  show ?case by simp
next
  case (Cons x xs)
  obtain lo hi v where x: "x = (lo, hi, v)" by (cases x)
  from Cons.prems have "\<not> (v = cv \<and> lo \<le> ch + 1)"
    and "successively (\<lambda>a b. \<not> mergeable_valued a b) ((lo, hi, v) # xs)"
    by (simp_all add: x mergeable_valued_def)
  with Cons.IH [of lo hi v] show ?case by (auto simp: x merge_valued_ranges_loop_step)
qed

lemma merge_ranges_fixed:
  assumes "sorted ys" and "successively (\<lambda>a b. \<not> mergeable a b) ys"
  shows "merge_ranges ys = ys"
proof (cases ys)
  case Nil
  then show ?thesis by (simp add: merge_ranges_def)
next
  case (Cons c rest)
  obtain cl ch where c: "c = (cl, ch)" by (cases c)
  have "sort ys = (cl, ch) # rest" using assms(1) Cons c by (simp only: sorted_sort_id)
  then have "merge_ranges ys = merge_ranges_loop [] cl ch rest"
    by (simp add: merge_ranges_sort)
  also have "\<dots> = (cl, ch) # rest"
    using assms(2) unfolding Cons c by (rule merge_ranges_loop_fixed)
  finally show ?thesis by (simp add: Cons c)
qed

lemma merge_valued_ranges_fixed:
  assumes "sorted ys" and "successively (\<lambda>a b. \<not> mergeable_valued a b) ys"
  shows "merge_valued_ranges ys = ys"
proof (cases ys)
  case Nil
  then show ?thesis by (simp add: merge_valued_ranges_def)
next
  case (Cons c rest)
  obtain cl ch cv where c: "c = (cl, ch, cv)" by (cases c)
  have "sort ys = (cl, ch, cv) # rest" using assms(1) Cons c by (simp only: sorted_sort_id)
  then have "merge_valued_ranges ys = merge_valued_ranges_loop [] cl ch cv rest"
    by (simp add: merge_valued_ranges_sort)
  also have "\<dots> = (cl, ch, cv) # rest"
    using assms(2) unfolding Cons c by (rule merge_valued_ranges_loop_fixed)
  finally show ?thesis by (simp add: Cons c)
qed

lemma merge_ranges_sorted_separated:
  "sorted (merge_ranges xs) \<and> successively (\<lambda>a b. \<not> mergeable a b) (merge_ranges xs)"
proof (cases "sort xs")
  case Nil
  then show ?thesis by (simp add: merge_ranges_sort)
next
  case (Cons c rest)
  obtain cl ch where c: "c = (cl, ch)" by (cases c)
  have "sorted (sort xs)" by simp
  then have "sorted rest" "\<forall>r \<in> set rest. (cl, ch) \<le> r" unfolding Cons c by auto
  from merge_ranges_lower [OF this] merge_ranges_loop_separated [of cl ch rest]
  show ?thesis by (simp add: merge_ranges_sort Cons c)
qed

lemma merge_valued_ranges_sorted_separated:
  "sorted (merge_valued_ranges xs)
   \<and> successively (\<lambda>a b. \<not> mergeable_valued a b) (merge_valued_ranges xs)"
proof (cases "sort xs")
  case Nil
  then show ?thesis by (simp add: merge_valued_ranges_sort)
next
  case (Cons c rest)
  obtain cl ch cv where c: "c = (cl, ch, cv)" by (cases c)
  have "sorted (sort xs)" by simp
  then have "sorted rest" "\<forall>r \<in> set rest. (cl, ch, cv) \<le> r" unfolding Cons c by auto
  from merge_valued_ranges_lower [OF this] merge_valued_ranges_loop_separated [of cl ch cv rest]
  show ?thesis by (simp add: merge_valued_ranges_sort Cons c)
qed

text \<open>
  Claim C4. Both merge operations are idempotent: merging the output of \<open>merge_ranges\<close>
  (respectively \<open>merge_valued_ranges\<close>) again returns the identical list, for every input
  list.
\<close>

theorem merge_idempotent:
  "merge_ranges (merge_ranges ranges) = merge_ranges ranges
   \<and> merge_valued_ranges (merge_valued_ranges rows) = merge_valued_ranges rows"
  using merge_ranges_sorted_separated [of ranges] merge_valued_ranges_sorted_separated [of rows]
  by (simp add: merge_ranges_fixed merge_valued_ranges_fixed)

theorem merge_idempotent_witness:
  "merge_ranges [(0x370, 0x374), (0x300, 0x36F), (5, 3), (5, 9)] = [(5, 3), (5, 9), (0x300, 0x374)]
   \<and> merge_ranges [(5, 3), (5, 9), (0x300, 0x374)] = [(5, 3), (5, 9), (0x300, 0x374)]
   \<and> merge_valued_ranges [(6, 9, ''A''), (3, 7, ''B''), (1, 5, ''A'')]
       = [(1, 5, ''A''), (3, 7, ''B''), (6, 9, ''A'')]
   \<and> merge_valued_ranges [(1, 5, ''A''), (3, 7, ''B''), (6, 9, ''A'')]
       = [(1, 5, ''A''), (3, 7, ''B''), (6, 9, ''A'')]"
  using merge_idempotent [of "[(0x370, 0x374), (0x300, 0x36F), (5, 3), (5, 9)]"
                             "[(6, 9, ''A''), (3, 7, ''B''), (1, 5, ''A'')]"]
  by (simp add: merge_ranges_def merge_ranges_loop.simps(2)
        merge_valued_ranges_def merge_valued_ranges_loop.simps(2))

text \<open>
  Claim C8. Both merges are independent of the order of the input: two input lists that
  are permutations of each other (equal as multisets) give identical output lists.
\<close>

theorem merge_order_independent:
  "(mset ranges = mset ranges' \<longrightarrow> merge_ranges ranges = merge_ranges ranges')
   \<and> (mset rows = mset rows' \<longrightarrow> merge_valued_ranges rows = merge_valued_ranges rows')"
  by (auto simp: merge_ranges_sort merge_valued_ranges_sort dest: sort_mset_cong)

theorem merge_order_independent_witness:
  "merge_ranges [(0x370, 0x374), (0x10, 0x20), (0x300, 0x36F)]
     = merge_ranges [(0x300, 0x36F), (0x370, 0x374), (0x10, 0x20)]
   \<and> merge_valued_ranges [(0x50, 0x50, ''Y''), (0x42, 0x45, ''X''), (0x41, 0x41, ''X'')]
     = merge_valued_ranges [(0x41, 0x41, ''X''), (0x42, 0x45, ''X''), (0x50, 0x50, ''Y'')]"
proof -
  have a: "mset [(0x370, 0x374), (0x10, 0x20), (0x300, 0x36F :: int)]
         = mset [(0x300, 0x36F), (0x370, 0x374), (0x10 :: int, 0x20)]"
    by simp
  have b: "mset [(0x50, 0x50, ''Y''), (0x42, 0x45, ''X''), (0x41 :: int, 0x41 :: int, ''X'')]
         = mset [(0x41, 0x41, ''X''), (0x42, 0x45, ''X''), (0x50, 0x50, ''Y'')]"
    by simp
  from merge_order_independent
         [of "[(0x370, 0x374), (0x10, 0x20), (0x300, 0x36F)]"
             "[(0x300, 0x36F), (0x370, 0x374), (0x10, 0x20)]"
             "[(0x50, 0x50, ''Y''), (0x42, 0x45, ''X''), (0x41, 0x41, ''X'')]"
             "[(0x41, 0x41, ''X''), (0x42, 0x45, ''X''), (0x50, 0x50, ''Y'')]"]
       a b
  show ?thesis by blast
qed

subsection \<open>Values are never mixed\<close>

lemma merge_valued_ranges_loop_origin:
  "\<forall>(a, b, w) \<in> set (merge_valued_ranges_loop [] cl ch cv xs).
     ((a = cl \<and> w = cv) \<or> (\<exists>h. (a, h, w) \<in> set xs))
     \<and> ((b = ch \<and> w = cv) \<or> (\<exists>l. (l, b, w) \<in> set xs))"
proof (induction xs arbitrary: cl ch cv)
  case Nil
  show ?case by simp
next
  case (Cons x xs)
  obtain lo hi v where x: "x = (lo, hi, v)" by (cases x)
  show ?case
  proof (cases "v = cv \<and> lo \<le> ch + 1")
    case True
    have step: "merge_valued_ranges_loop [] cl ch cv (x # xs)
        = merge_valued_ranges_loop [] cl (max ch hi) cv xs"
      using True by (simp add: x merge_valued_ranges_loop_step)
    have m: "max ch hi = ch \<or> max ch hi = hi" by (simp add: max_def)
    show ?thesis
      unfolding step using Cons.IH [of cl "max ch hi" cv] True m
      by (fastforce simp: x)
  next
    case False
    have step: "merge_valued_ranges_loop [] cl ch cv (x # xs)
        = (cl, ch, cv) # merge_valued_ranges_loop [] lo hi v xs"
      using False by (auto simp: x merge_valued_ranges_loop_step)
    show ?thesis
      unfolding step using Cons.IH [of lo hi v]
      by (fastforce simp: x)
  qed
qed

lemma merge_valued_ranges_origin:
  assumes "(lo, hi, v) \<in> set (merge_valued_ranges rows)"
  shows "(\<exists>h. (lo, h, v) \<in> set rows) \<and> (\<exists>l. (l, hi, v) \<in> set rows)"
proof (cases "sort rows")
  case Nil
  then have "rows = []" using length_sort [of "\<lambda>x. x" rows] by simp
  with assms show ?thesis by (simp add: merge_valued_ranges_def)
next
  case (Cons c rest)
  obtain cl ch cv where c: "c = (cl, ch, cv)" by (cases c)
  have mr: "merge_valued_ranges rows = merge_valued_ranges_loop [] cl ch cv rest"
    using Cons c by (simp add: merge_valued_ranges_sort)
  have "set (sort rows) = set rows" by simp
  then have set_s: "set rows = insert (cl, ch, cv) (set rest)"
    unfolding Cons c by simp
  from merge_valued_ranges_loop_origin [of cl ch cv rest] assms
  show ?thesis unfolding mr set_s by fastforce
qed

lemma covered_by_member:
  "(lo, hi, v) \<in> set rs \<Longrightarrow> {lo..hi} \<subseteq> covered_by v rs"
  by (fastforce simp: covered_by_def)

lemma alternating_not_mergeable:
  "successively (\<lambda>a b. snd (snd a) \<noteq> snd (snd b)) rows \<Longrightarrow>
   successively (\<lambda>a b. \<not> mergeable_valued a b) rows"
  by (erule successively_mono) (simp add: mergeable_valued_def)

text \<open>
  Claim C2. The valued merge never coalesces ranges of different values. Every output
  range \<open>(lo, hi, v)\<close> starts at the \<open>lo\<close> of an input row with value \<open>v\<close>, ends at the
  \<open>hi\<close> of an input row with value \<open>v\<close>, and covers only codepoints that input rows with
  value \<open>v\<close> cover. A value change always closes the current interval: a sorted input
  whose neighbouring rows all differ in value is returned unchanged, adjacent or not.
  In particular the rows \<open>(0x41, 0x41, X)\<close>, \<open>(0x42, 0x45, X)\<close>, \<open>(0x50, 0x50, Y)\<close> merge to
  \<open>(0x41, 0x45, X)\<close>, \<open>(0x50, 0x50, Y)\<close>.
\<close>

theorem merge_valued_ranges_keeps_values:
  "(\<forall>(lo, hi, v) \<in> set (merge_valued_ranges rows).
      (\<exists>h. (lo, h, v) \<in> set rows) \<and> (\<exists>l. (l, hi, v) \<in> set rows)
      \<and> {lo..hi} \<subseteq> covered_by v rows)
   \<and> (sorted rows \<and> successively (\<lambda>a b. snd (snd a) \<noteq> snd (snd b)) rows
        \<longrightarrow> merge_valued_ranges rows = rows)
   \<and> merge_valued_ranges [(0x41, 0x41, ''X''), (0x42, 0x45, ''X''), (0x50, 0x50, ''Y'')]
        = [(0x41, 0x45, ''X''), (0x50, 0x50, ''Y'')]"
proof (intro conjI)
  show "\<forall>(lo, hi, v) \<in> set (merge_valued_ranges rows).
      (\<exists>h. (lo, h, v) \<in> set rows) \<and> (\<exists>l. (l, hi, v) \<in> set rows)
      \<and> {lo..hi} \<subseteq> covered_by v rows"
  proof (clarify, intro conjI)
    fix lo hi v assume m: "(lo, hi, v) \<in> set (merge_valued_ranges rows)"
    from merge_valued_ranges_origin [OF m]
    show "\<exists>h. (lo, h, v) \<in> set rows" and "\<exists>l. (l, hi, v) \<in> set rows" by simp_all
    from covered_by_member [OF m] show "{lo..hi} \<subseteq> covered_by v rows"
      by (simp only: merge_valued_ranges_covered_by)
  qed
  show "sorted rows \<and> successively (\<lambda>a b. snd (snd a) \<noteq> snd (snd b)) rows
        \<longrightarrow> merge_valued_ranges rows = rows"
    by (auto intro: merge_valued_ranges_fixed alternating_not_mergeable)
  show "merge_valued_ranges [(0x41, 0x41, ''X''), (0x42, 0x45, ''X''), (0x50, 0x50, ''Y'')]
        = [(0x41, 0x45, ''X''), (0x50, 0x50, ''Y'')]"
    by (simp add: merge_valued_ranges_def merge_valued_ranges_loop.simps(2))
qed

theorem merge_valued_ranges_keeps_values_witness:
  "merge_valued_ranges [(1, 2, ''A''), (3, 4, ''B''), (5, 6, ''A'')]
     = [(1, 2, ''A''), (3, 4, ''B''), (5, 6, ''A'')]
   \<and> (\<exists>h. (3, h, ''B'') \<in> set [(1, 2, ''A''), (3, 4, ''B''), (5 :: int, 6 :: int, ''A'')])
   \<and> (\<exists>l. (l, 4, ''B'') \<in> set [(1, 2, ''A''), (3, 4, ''B''), (5 :: int, 6 :: int, ''A'')])
   \<and> {3..4} \<subseteq> covered_by ''B'' [(1, 2, ''A''), (3, 4, ''B''), (5, 6, ''A'')]"
proof -
  let ?rows = "[(1, 2, ''A''), (3, 4, ''B''), (5 :: int, 6 :: int, ''A'')]"
  note t = merge_valued_ranges_keeps_values [of ?rows]
  have s: "sorted ?rows \<and> successively (\<lambda>a b. snd (snd a) \<noteq> snd (snd b)) ?rows"
    by simp
  from t s have e: "merge_valued_ranges ?rows = ?rows" by blast
  from t have "\<forall>(lo, hi, v) \<in> set (merge_valued_ranges ?rows).
      (\<exists>h. (lo, h, v) \<in> set ?rows) \<and> (\<exists>l. (l, hi, v) \<in> set ?rows)
      \<and> {lo..hi} \<subseteq> covered_by v ?rows" by blast
  then have "\<forall>(lo, hi, v) \<in> set ?rows.
      (\<exists>h. (lo, h, v) \<in> set ?rows) \<and> (\<exists>l. (l, hi, v) \<in> set ?rows)
      \<and> {lo..hi} \<subseteq> covered_by v ?rows" unfolding e .
  then have "(\<exists>h. (3, h, ''B'') \<in> set ?rows) \<and> (\<exists>l. (l, 4, ''B'') \<in> set ?rows)
      \<and> {3..4} \<subseteq> covered_by ''B'' ?rows" by simp
  with e show ?thesis by simp
qed

subsection \<open>The validator as a gate\<close>

lemma assert_disjoint_loop_accepts:
  "assert_disjoint_loop label prev s = Inr () \<longleftrightarrow>
     (s = [] \<or> prev < fst (hd s)) \<and> successively (\<lambda>a b. fst (snd a) < fst b) s"
proof (induction s arbitrary: prev)
  case Nil
  show ?case by simp
next
  case (Cons x xs)
  obtain lo hi v where x: "x = (lo, hi, v)" by (cases x)
  show ?case using Cons.IH [of hi]
    by (cases xs) (auto simp: x)
qed

lemma assert_disjoint_loop_rejects:
  "assert_disjoint_loop label prev s = Inl e \<Longrightarrow>
   \<exists>k < length s. e = OverlapError label (fst (s ! k))
      \<and> offends_at prev s k \<and> (\<forall>j < k. \<not> offends_at prev s j)"
proof (induction s arbitrary: prev)
  case Nil
  then show ?case by simp
next
  case (Cons x xs)
  obtain lo hi v where x: "x = (lo, hi, v)" by (cases x)
  show ?case
  proof (cases "lo \<le> prev")
    case True
    with Cons.prems have "e = OverlapError label lo" by (simp add: x)
    with True show ?thesis by (intro exI [of _ 0]) (simp add: x offends_at_def)
  next
    case False
    with Cons.prems have "assert_disjoint_loop label hi xs = Inl e" by (simp add: x)
    from Cons.IH [OF this] obtain k where k: "k < length xs"
      "e = OverlapError label (fst (xs ! k))"
      "offends_at hi xs k" "\<forall>j < k. \<not> offends_at hi xs j" by blast
    have shift: "offends_at prev (x # xs) (Suc j) = offends_at hi xs j" for j
      by (cases j) (simp_all add: offends_at_def x)
    have first: "\<not> offends_at prev (x # xs) 0"
      using False by (simp add: offends_at_def x)
    have before: "\<forall>j < Suc k. \<not> offends_at prev (x # xs) j"
    proof (intro allI impI)
      fix j assume j: "j < Suc k"
      show "\<not> offends_at prev (x # xs) j"
      proof (cases j)
        case 0
        with first show ?thesis by simp
      next
        case (Suc i)
        with j k(4) show ?thesis by (simp add: shift)
      qed
    qed
    have "Suc k < length (x # xs)" using k(1) by simp
    moreover have "e = OverlapError label (fst ((x # xs) ! Suc k))" using k(2) by simp
    moreover have "offends_at prev (x # xs) (Suc k)" using k(3) by (simp add: shift)
    ultimately show ?thesis using before by blast
  qed
qed

lemma value_disjoint_tail: "value_disjoint (x # xs) \<Longrightarrow> value_disjoint xs"
  by (simp add: value_disjoint_def)

lemma value_disjoint_extend:
  assumes vd: "value_disjoint ((cl, ch, cv) # (lo, hi, cv) # xs)"
    and lo: "cl \<le> lo"
    and wf: "\<forall>(l, h, u) \<in> set xs. lo \<le> l \<and> l \<le> h"
  shows "value_disjoint ((cl, max ch hi, cv) # xs)"
proof -
  have xs: "value_disjoint xs"
    using vd by (blast dest: value_disjoint_tail)
  have far: "max ch hi < l" if r: "(l, h, u) \<in> set xs" and u: "u \<noteq> cv" for l h u
  proof -
    have b: "lo \<le> l" "l \<le> h" using wf r by auto
    have "ch < l \<or> h < cl" using vd r u unfolding value_disjoint_def by fastforce
    moreover have "hi < l \<or> h < lo" using vd r u unfolding value_disjoint_def by fastforce
    ultimately show ?thesis using b lo by auto
  qed
  show ?thesis
    unfolding value_disjoint_def
  proof (intro ballI impI)
    fix a b
    assume a: "a \<in> set ((cl, max ch hi, cv) # xs)"
      and b: "b \<in> set ((cl, max ch hi, cv) # xs)"
      and ne: "snd (snd a) \<noteq> snd (snd b)"
    consider "a = (cl, max ch hi, cv)" "b \<in> set xs"
      | "a \<in> set xs" "b = (cl, max ch hi, cv)"
      | "a \<in> set xs" "b \<in> set xs"
      using a b ne by auto
    then show "fst (snd a) < fst b \<or> fst (snd b) < fst a"
    proof cases
      case 1
      then show ?thesis using far [of "fst b" "fst (snd b)" "snd (snd b)"] ne by auto
    next
      case 2
      then show ?thesis using far [of "fst a" "fst (snd a)" "snd (snd a)"] ne by auto
    next
      case 3
      then show ?thesis using xs ne unfolding value_disjoint_def by blast
    qed
  qed
qed

lemma merge_valued_ranges_loop_chain:
  "\<forall>(l, h, u) \<in> set xs. cl \<le> l \<and> l \<le> h \<Longrightarrow> sorted (map fst xs) \<Longrightarrow>
   value_disjoint ((cl, ch, cv) # xs) \<Longrightarrow>
   successively (\<lambda>a b. fst (snd a) < fst b) (merge_valued_ranges_loop [] cl ch cv xs)"
proof (induction xs arbitrary: cl ch cv)
  case Nil
  show ?case by simp
next
  case (Cons x xs)
  obtain lo hi v where x: "x = (lo, hi, v)" by (cases x)
  have lo: "cl \<le> lo" "lo \<le> hi" using Cons.prems(1) by (simp_all add: x)
  have srt: "sorted (map fst xs)" using Cons.prems(2) by simp
  have wf: "\<forall>(l, h, u) \<in> set xs. l \<le> h" using Cons.prems(1) by auto
  have ge: "\<forall>(l, h, u) \<in> set xs. lo \<le> l" using Cons.prems(2) by (auto simp: x)
  have wf_lo: "\<forall>(l, h, u) \<in> set xs. lo \<le> l \<and> l \<le> h" using ge wf by fastforce
  show ?case
  proof (cases "v = cv \<and> lo \<le> ch + 1")
    case True
    then have v: "v = cv" by simp
    have step: "merge_valued_ranges_loop [] cl ch cv (x # xs)
        = merge_valued_ranges_loop [] cl (max ch hi) cv xs"
      using True by (simp add: x merge_valued_ranges_loop_step)
    have wf_cl: "\<forall>(l, h, u) \<in> set xs. cl \<le> l \<and> l \<le> h" using wf_lo lo(1) by fastforce
    have vd: "value_disjoint ((cl, max ch hi, cv) # xs)"
      using Cons.prems(3) unfolding x v by (rule value_disjoint_extend [OF _ lo(1) wf_lo])
    show ?thesis unfolding step by (rule Cons.IH [OF wf_cl srt vd])
  next
    case False
    have step: "merge_valued_ranges_loop [] cl ch cv (x # xs)
        = (cl, ch, cv) # merge_valued_ranges_loop [] lo hi v xs"
      using False by (auto simp: x merge_valued_ranges_loop_step)
    obtain b tl where h: "merge_valued_ranges_loop [] lo hi v xs = (lo, b, v) # tl"
      using merge_valued_ranges_loop_head [of lo hi v xs] by blast
    have vd: "value_disjoint ((lo, hi, v) # xs)"
      using Cons.prems(3) unfolding x by (rule value_disjoint_tail)
    have gap: "ch < lo"
    proof (cases "v = cv")
      case True
      with False show ?thesis by simp
    next
      case False
      then have "ch < lo \<or> hi < cl" using Cons.prems(3) unfolding x value_disjoint_def by fastforce
      with lo show ?thesis by simp
    qed
    from Cons.IH [OF wf_lo srt vd] gap show ?thesis
      unfolding step by (simp add: h)
  qed
qed

lemma sorted_key2_of_sorted:
  "sorted (xs :: (int \<times> int \<times> string) list) \<Longrightarrow> sorted (map (\<lambda>x. (fst x, fst (snd x))) xs)"
  by (induction xs) (auto simp: less_eq_prod_def)

lemma assert_disjoint_sorted_accepts_merged:
  assumes wf: "\<forall>(lo, hi, v) \<in> set rows. 0 \<le> lo \<and> lo \<le> hi"
    and vd: "value_disjoint rows"
  shows "assert_disjoint_sorted (merge_valued_ranges rows) label = Inr ()"
proof (cases "sort rows")
  case Nil
  then have "rows = []" using length_sort [of "\<lambda>x. x" rows] by simp
  then show ?thesis by (simp add: merge_valued_ranges_def assert_disjoint_sorted_def)
next
  case (Cons c rest)
  obtain cl ch cv where c: "c = (cl, ch, cv)" by (cases c)
  let ?out = "merge_valued_ranges_loop [] cl ch cv rest"
  have mr: "merge_valued_ranges rows = ?out"
    using Cons c by (simp add: merge_valued_ranges_sort)
  have "set (sort rows) = set rows" by simp
  then have set_s: "set rows = set ((cl, ch, cv) # rest)"
    unfolding Cons c by simp
  have "sorted (map fst (sort rows))" by (rule sorted_fst3) simp
  then have srt: "sorted (map fst rest)" and ge: "\<forall>(l, h, u) \<in> set rest. cl \<le> l"
    using Cons c by auto
  have wf': "\<forall>(l, h, u) \<in> set rest. cl \<le> l \<and> l \<le> h" using wf ge set_s by fastforce
  have cl: "0 \<le> cl" using wf set_s by auto
  have vd': "value_disjoint ((cl, ch, cv) # rest)"
    using vd unfolding value_disjoint_def set_s .
  have chain: "successively (\<lambda>a b. fst (snd a) < fst b) ?out"
    by (rule merge_valued_ranges_loop_chain [OF wf' srt vd'])
  obtain b tl where h: "?out = (cl, b, cv) # tl"
    using merge_valued_ranges_loop_head [of cl ch cv rest] by blast
  have "sorted ?out"
    using merge_valued_ranges_sorted_separated [of rows] unfolding mr by simp
  then have "sort_key (\<lambda>x. (fst x, fst (snd x))) ?out = ?out"
    by (intro sort_key_id_if_sorted sorted_key2_of_sorted)
  then have "assert_disjoint_sorted ?out label = assert_disjoint_loop label (- 1) ?out"
    by (simp add: assert_disjoint_sorted_def)
  also have "\<dots> = Inr ()"
    unfolding assert_disjoint_loop_accepts using chain cl by (simp add: h)
  finally show ?thesis unfolding mr .
qed

lemma assert_disjoint_sorted_rejects_overlap:
  assumes "\<exists>i. Suc i < length (sort_key (\<lambda>x. (fst x, fst (snd x))) ranges)
      \<and> fst (sort_key (\<lambda>x. (fst x, fst (snd x))) ranges ! Suc i)
          \<le> fst (snd (sort_key (\<lambda>x. (fst x, fst (snd x))) ranges ! i))"
  shows "\<exists>k < length (sort_key (\<lambda>x. (fst x, fst (snd x))) ranges).
      assert_disjoint_sorted ranges label
        = Inl (OverlapError label (fst (sort_key (\<lambda>x. (fst x, fst (snd x))) ranges ! k)))
      \<and> offends_at (- 1) (sort_key (\<lambda>x. (fst x, fst (snd x))) ranges) k
      \<and> (\<forall>j < k. \<not> offends_at (- 1) (sort_key (\<lambda>x. (fst x, fst (snd x))) ranges) j)"
proof -
  let ?s = "sort_key (\<lambda>x. (fst x, fst (snd x))) ranges"
  have "\<not> successively (\<lambda>a b. fst (snd a) < fst b) ?s"
    using assms unfolding successively_conv_nth by (auto simp: not_less)
  then have "assert_disjoint_loop label (- 1) ?s \<noteq> Inr ()"
    unfolding assert_disjoint_loop_accepts by simp
  then obtain e where e: "assert_disjoint_loop label (- 1) ?s = Inl e"
    by (cases "assert_disjoint_loop label (- 1) ?s") auto
  from assert_disjoint_loop_rejects [OF e] show ?thesis
    unfolding assert_disjoint_sorted_def e by blast
qed

text \<open>
  Claim C3, as amended. The validator accepts the output of the valued merge (the only
  merge whose output has the validator's shape of entries, and the only one the run
  validates) for every input whose rows satisfy \<open>0 \<le> lo \<le> hi\<close> and in which rows of
  different values share no codepoint. It raises \<open>OverlapError\<close> on every list in which,
  after sorting by \<open>(lo, hi)\<close>, some entry's \<open>lo\<close> is at most the previous entry's \<open>hi\<close>;
  the error carries the \<open>lo\<close> of the first offending entry of the sorted list: entry \<open>k\<close>
  offends (its \<open>lo\<close> is at most the \<open>hi\<close> before it, \<open>-1\<close> before the first entry) and no
  entry before \<open>k\<close> does.
\<close>

theorem assert_disjoint_sorted_gate:
  fixes ranges :: "(int \<times> int \<times> string) list"
  defines "s \<equiv> sort_key (\<lambda>x. (fst x, fst (snd x))) ranges"
  shows "((\<forall>(lo, hi, v) \<in> set rows. 0 \<le> lo \<and> lo \<le> hi) \<and> value_disjoint rows
            \<longrightarrow> assert_disjoint_sorted (merge_valued_ranges rows) label = Inr ())
       \<and> ((\<exists>i. Suc i < length s \<and> fst (s ! Suc i) \<le> fst (snd (s ! i)))
            \<longrightarrow> (\<exists>k < length s.
                   assert_disjoint_sorted ranges label' = Inl (OverlapError label' (fst (s ! k)))
                   \<and> offends_at (- 1) s k
                   \<and> (\<forall>j < k. \<not> offends_at (- 1) s j)))"
  unfolding s_def
  using assert_disjoint_sorted_accepts_merged [of rows label]
        assert_disjoint_sorted_rejects_overlap [of ranges label']
  by blast

theorem assert_disjoint_sorted_gate_witness:
  "assert_disjoint_sorted
     (merge_valued_ranges [(0x41, 0x41, ''X''), (0x50, 0x50, ''Y''), (0x42, 0x45, ''X'')]) ''GCB''
     = Inr ()
   \<and> assert_disjoint_sorted [(6, 9, ''C''), (3, 7, ''B''), (1, 5, ''A'')] ''GCB''
     = Inl (OverlapError ''GCB'' 3)"
proof -
  let ?rows = "[(0x41, 0x41, ''X''), (0x50, 0x50, ''Y''), (0x42 :: int, 0x45 :: int, ''X'')]"
  let ?ranges = "[(6, 9, ''C''), (3, 7, ''B''), (1 :: int, 5 :: int, ''A'')]"
  let ?s = "sort_key (\<lambda>x. (fst x, fst (snd x))) ?ranges"
  note t = assert_disjoint_sorted_gate
             [where rows = ?rows and ranges = ?ranges and label = "''GCB''" and label' = "''GCB''"]
  have wf: "\<forall>(lo, hi, v) \<in> set ?rows. 0 \<le> lo \<and> lo \<le> hi" by simp
  have vd: "value_disjoint ?rows" by (simp add: value_disjoint_def)
  from t wf vd have accept: "assert_disjoint_sorted (merge_valued_ranges ?rows) ''GCB'' = Inr ()"
    by blast
  have s: "?s = [(1, 5, ''A''), (3, 7, ''B''), (6, 9, ''C'')]" by simp
  have "Suc 0 < length ?s \<and> fst (?s ! Suc 0) \<le> fst (snd (?s ! 0))"
    unfolding s by simp
  then have "\<exists>i. Suc i < length ?s \<and> fst (?s ! Suc i) \<le> fst (snd (?s ! i))" by blast
  with t obtain k where k: "k < length ?s"
    "assert_disjoint_sorted ?ranges ''GCB'' = Inl (OverlapError ''GCB'' (fst (?s ! k)))"
    "offends_at (- 1) ?s k" "\<forall>j < k. \<not> offends_at (- 1) ?s j"
    by blast
  have o1: "offends_at (- 1) ?s 1" unfolding s by (simp add: offends_at_def)
  have o0: "\<not> offends_at (- 1) ?s 0" unfolding s by (simp add: offends_at_def)
  have "\<not> 1 < k" using k(4) o1 by blast
  moreover have "k \<noteq> 0" using k(3) o0 by (cases "k = 0") simp_all
  ultimately have "k = 1" by simp
  with k(2) have "assert_disjoint_sorted ?ranges ''GCB'' = Inl (OverlapError ''GCB'' 3)"
    unfolding s by simp
  with accept show ?thesis by simp
qed

text \<open>
  The claim as stated fails: two overlapping rows of different values pass through the
  valued merge unchanged, and the validator rejects that output.
\<close>

theorem assert_disjoint_sorted_gate_counterexample:
  "merge_valued_ranges [(1, 5, ''A''), (3, 7, ''B'')] = [(1, 5, ''A''), (3, 7, ''B'')]
   \<and> assert_disjoint_sorted (merge_valued_ranges [(1, 5, ''A''), (3, 7, ''B'')]) ''GCB''
       = Inl (OverlapError ''GCB'' 3)"
  by (simp add: merge_valued_ranges_def merge_valued_ranges_loop.simps(2)
        assert_disjoint_sorted_def)

subsection \<open>Lines that the parser skips\<close>






subsection \<open>The range check of the parser\<close>







subsection \<open>All-or-nothing output\<close>

lemma emit_ranges8_loop_cases:
  "(\<exists>lines'. emit_ranges8_loop lines rows = Inr lines'
       \<and> (\<forall>(lo, hi, p) \<in> set rows. gcb_map p \<noteq> None))
   \<or> (\<exists>lo hi p. emit_ranges8_loop lines rows = Inl (UnmappedSymbolError p)
       \<and> (lo, hi, p) \<in> set rows \<and> gcb_map p = None)"
proof (induction rows arbitrary: lines)
  case Nil
  show ?case by simp
next
  case (Cons x rows)
  obtain lo hi p where x: "x = (lo, hi, p)" by (cases x)
  show ?case
  proof (cases "gcb_map p")
    case None
    then show ?thesis by (auto simp: x)
  next
    case (Some enum_name)
    let ?l = "lines @ [''  {'' @ fmt_u32 lo @ '', '' @ fmt_u32 hi @ '', (uint8_t)'' @ enum_name
                        @ '', {0u, 0u, 0u}},'']"
    from Cons.IH [of ?l] Some show ?thesis
      by (auto simp: x)
  qed
qed

lemma emit_ranges8_cases:
  "(\<exists>t. emit_ranges8 name rows = Inr t \<and> (\<forall>(lo, hi, p) \<in> set rows. gcb_map p \<noteq> None))
   \<or> (\<exists>lo hi p. emit_ranges8 name rows = Inl (UnmappedSymbolError p)
       \<and> (lo, hi, p) \<in> set rows \<and> gcb_map p = None)"
  using emit_ranges8_loop_cases [of "[''static const zr_unicode_range8_t '' @ name @ ''[] = {'']" rows]
  unfolding emit_ranges8_def by (elim disjE exE conjE) auto

lemma emit_inc_cases:
  "(\<exists>t1. emit_ranges8 ''kGcbRanges'' gcb = Inr t1
       \<and> (\<forall>(lo, hi, p) \<in> set gcb. gcb_map p \<noteq> None)
       \<and> emit_inc fs out gcb ep emoji_pres eaw_wide
           = (write_text out (table_text t1 ep emoji_pres eaw_wide) (mkdir_parents out fs), Inr ()))
   \<or> (\<exists>lo hi p. (lo, hi, p) \<in> set gcb \<and> gcb_map p = None
       \<and> emit_inc fs out gcb ep emoji_pres eaw_wide
           = (mkdir_parents out fs, Inl (UnmappedSymbolError p)))"
  using emit_ranges8_cases [of "''kGcbRanges''" gcb]
  unfolding emit_inc_def table_text_def
  by (elim disjE exE conjE) (auto simp: Let_def)

lemma files_mkdir_parents: "files (mkdir_parents p fs) = files fs"
  by (simp add: mkdir_parents_def)

lemma files_write_text: "files (write_text p t fs) = (files fs)(p \<mapsto> t)"
  by (simp add: write_text_def)

lemma emit_inc_error_keeps_files:
  "emit_inc fs out gcb ep emoji_pres eaw_wide = (fs', Inl e) \<Longrightarrow> files fs' = files fs"
  using emit_inc_cases [of gcb fs out ep emoji_pres eaw_wide]
  by (auto simp: files_mkdir_parents)

lemma main_run_error_keeps_files:
  "main_run fs srcs read_lines out = (fs', Inl e) \<Longrightarrow> files fs' = files fs"
  unfolding main_run_def Let_def
  by (auto split: sum.splits prod.splits dest: emit_inc_error_keeps_files)


text \<open>
  Claim C9. Whenever the run ends in an error, the files of the file system are what
  they were before the run: the output artifact is not written, in whole or in part.
  The emitter raises only \<open>UnmappedSymbolError\<close>, for a row of the valued table whose
  property has no symbolic name, and then it has written nothing; any such row makes it
  raise. When every property is mapped, every entry is formatted first and the emitter
  ends with one write of the complete text (header, the four tables, final newline) to
  the output path.
\<close>

theorem emit_all_or_nothing:
  "(main_run fs srcs read_lines out = (fs', Inl e) \<longrightarrow> files fs' = files fs)
   \<and> (emit_inc fs out gcb ep emoji_pres eaw_wide = (fs'', Inl e')
        \<longrightarrow> files fs'' = files fs
            \<and> (\<exists>lo hi p. e' = UnmappedSymbolError p \<and> (lo, hi, p) \<in> set gcb \<and> gcb_map p = None))
   \<and> ((\<exists>(lo, hi, p) \<in> set gcb. gcb_map p = None)
        \<longrightarrow> (\<exists>p. emit_inc fs out gcb ep emoji_pres eaw_wide
                   = (mkdir_parents out fs, Inl (UnmappedSymbolError p))))
   \<and> ((\<forall>(lo, hi, p) \<in> set gcb. gcb_map p \<noteq> None)
        \<longrightarrow> (\<exists>t1. emit_ranges8 ''kGcbRanges'' gcb = Inr t1
               \<and> emit_inc fs out gcb ep emoji_pres eaw_wide
                   = (write_text out (table_text t1 ep emoji_pres eaw_wide) (mkdir_parents out fs),
                      Inr ())))"
proof (intro conjI impI)
  assume "main_run fs srcs read_lines out = (fs', Inl e)"
  then show "files fs' = files fs" by (rule main_run_error_keeps_files)
next
  assume a: "emit_inc fs out gcb ep emoji_pres eaw_wide = (fs'', Inl e')"
  then show "files fs'' = files fs" by (rule emit_inc_error_keeps_files)
  from a emit_inc_cases [of gcb fs out ep emoji_pres eaw_wide]
  show "\<exists>lo hi p. e' = UnmappedSymbolError p \<and> (lo, hi, p) \<in> set gcb \<and> gcb_map p = None"
    by auto
next
  assume "\<exists>(lo, hi, p) \<in> set gcb. gcb_map p = None"
  with emit_inc_cases [of gcb fs out ep emoji_pres eaw_wide]
  show "\<exists>p. emit_inc fs out gcb ep emoji_pres eaw_wide
                   = (mkdir_parents out fs, Inl (UnmappedSymbolError p))"
    by fastforce
next
  assume "\<forall>(lo, hi, p) \<in> set gcb. gcb_map p \<noteq> None"
  with emit_inc_cases [of gcb fs out ep emoji_pres eaw_wide]
  show "\<exists>t1. emit_ranges8 ''kGcbRanges'' gcb = Inr t1
               \<and> emit_inc fs out gcb ep emoji_pres eaw_wide
                   = (write_text out (table_text t1 ep emoji_pres eaw_wide) (mkdir_parents out fs),
                      Inr ())"
    by fastforce
qed

theorem emit_all_or_nothing_witness:
  "main_run \<lparr>dirs = {}, files = Map.empty\<rparr> (\<lambda>n. [''ucd'', n])
     (\<lambda>p. if p = [''ucd'', ''GraphemeBreakProperty.txt''] then [''110000; Control''] else [])
     [''src'', ''t.inc'']
   = (\<lparr>dirs = {}, files = Map.empty\<rparr>,
      Inl (RangeError ''110000'' [''ucd'', ''GraphemeBreakProperty.txt'']))
   \<and> main_run \<lparr>dirs = {}, files = Map.empty\<rparr> (\<lambda>n. [''ucd'', n])
     (\<lambda>p. if p = [''ucd'', ''GraphemeBreakProperty.txt'']
          then [''0..5; Control'', ''3..7; Extend''] else [])
     [''src'', ''t.inc'']
   = (\<lparr>dirs = {}, files = Map.empty\<rparr>, Inl (OverlapError ''GCB'' 3))
   \<and> emit_inc \<lparr>dirs = {}, files = Map.empty\<rparr> [''src'', ''t.inc'']
        [(0x41, 0x45, ''CR''), (0x50, 0x50, ''Bogus'')] [] [] []
      = (mkdir_parents [''src'', ''t.inc''] \<lparr>dirs = {}, files = Map.empty\<rparr>,
         Inl (UnmappedSymbolError ''Bogus''))
   \<and> files (mkdir_parents [''src'', ''t.inc''] \<lparr>dirs = {}, files = Map.empty\<rparr>)
      = files \<lparr>dirs = {}, files = Map.empty\<rparr>
   \<and> (\<exists>t1. emit_inc \<lparr>dirs = {}, files = Map.empty\<rparr> [''src'', ''t.inc'']
              [(0x41, 0x45, ''CR'')] [] [] []
            = (write_text [''src'', ''t.inc''] (table_text t1 [] [] [])
                 (mkdir_parents [''src'', ''t.inc''] \<lparr>dirs = {}, files = Map.empty\<rparr>),
               Inr ()))"
proof -
  let ?fs = "\<lparr>dirs = {}, files = Map.empty :: path \<rightharpoonup> string\<rparr>"
  let ?out = "[''src'', ''t.inc'']"
  let ?bad = "[(0x41, 0x45, ''CR''), (0x50 :: int, 0x50 :: int, ''Bogus'')]"
  let ?good = "[(0x41 :: int, 0x45 :: int, ''CR'')]"
  have p1: "parse_property_file [''ucd'', ''GraphemeBreakProperty.txt''] [''110000; Control'']
      (Some gcb_props) = Inl (RangeError ''110000'' [''ucd'', ''GraphemeBreakProperty.txt''])"
    by code_simp
  have r1: "main_run ?fs (\<lambda>n. [''ucd'', n])
     (\<lambda>p. if p = [''ucd'', ''GraphemeBreakProperty.txt''] then [''110000; Control''] else [])
     ?out
   = (?fs, Inl (RangeError ''110000'' [''ucd'', ''GraphemeBreakProperty.txt'']))"
    using p1 by (simp add: main_run_def)
  have p2: "parse_property_file [''ucd'', ''GraphemeBreakProperty.txt'']
      [''0..5; Control'', ''3..7; Extend''] (Some gcb_props)
      = Inr [(0, 5, ''Control''), (3, 7, ''Extend'')]"
    by code_simp
  have p3: "assert_disjoint_sorted
      (merge_valued_ranges [(0, 5, ''Control''), (3, 7, ''Extend'')]) ''GCB''
     = Inl (OverlapError ''GCB'' 3)"
    by code_simp
  have r2: "main_run ?fs (\<lambda>n. [''ucd'', n])
     (\<lambda>p. if p = [''ucd'', ''GraphemeBreakProperty.txt'']
          then [''0..5; Control'', ''3..7; Extend''] else [])
     ?out
   = (?fs, Inl (OverlapError ''GCB'' 3))"
    using p2 p3 by (simp add: main_run_def Let_def)
  have r3: "emit_inc ?fs ?out ?bad [] [] []
      = (mkdir_parents ?out ?fs, Inl (UnmappedSymbolError ''Bogus''))"
    by (simp add: emit_inc_def emit_ranges8_def gcb_map_def)
  note t = emit_all_or_nothing
    [where fs = ?fs and out = ?out and gcb = ?bad and ep = "[]" and emoji_pres = "[]"
       and eaw_wide = "[]" and fs'' = "mkdir_parents ?out ?fs"
       and e' = "UnmappedSymbolError ''Bogus''"]
  from t r3 have r4: "files (mkdir_parents ?out ?fs) = files ?fs" by blast
  note u = emit_all_or_nothing
    [where fs = ?fs and out = ?out and gcb = ?good and ep = "[]" and emoji_pres = "[]"
       and eaw_wide = "[]"]
  have m: "\<forall>(lo, hi, p) \<in> set ?good. gcb_map p \<noteq> None"
    by (simp add: gcb_map_def)
  from u m have r5: "\<exists>t1. emit_inc ?fs ?out ?good [] [] []
            = (write_text ?out (table_text t1 [] [] []) (mkdir_parents ?out ?fs), Inr ())"
    by blast
  from r1 r2 r3 r4 r5 show ?thesis by (intro conjI)
qed

subsection \<open>Formatting and parsing numeric fields\<close>

declare hex_of_nat.simps [simp del]

lemma hex_char_table:
  "\<forall>d \<in> set [0..<16]. is_hex_char (hex_char d) \<and> hex_digit_value (hex_char d) = int d"
  by code_simp

lemma hex_char_ok:
  assumes "d < 16"
  shows "is_hex_char (hex_char d)" and "hex_digit_value (hex_char d) = int d"
  using hex_char_table assms by auto

lemma hex_value_snoc: "hex_value (s @ [c]) = 16 * hex_value s + hex_digit_value c"
  by (simp add: hex_value_def)

lemma hex_value_zeros: "hex_value (replicate k (CHR ''0'') @ s) = hex_value s"
proof -
  have z: "foldl (\<lambda>acc c. 16 * acc + hex_digit_value c) 0 (replicate k (CHR ''0'')) = 0"
    by (induction k) (simp_all add: hex_digit_value_def)
  show ?thesis by (simp add: hex_value_def z)
qed

lemma hex_of_nat_value:
  "hex_value (hex_of_nat n) = int n \<and> list_all is_hex_char (hex_of_nat n) \<and> hex_of_nat n \<noteq> []"
proof (induction n rule: hex_of_nat.induct)
  case (1 n)
  show ?case
  proof (cases "n < 16")
    case True
    then show ?thesis
      by (simp add: hex_of_nat.simps [of n] hex_value_def hex_char_ok)
  next
    case False
    have d: "n mod 16 < 16" by simp
    from 1 False have ih: "hex_value (hex_of_nat (n div 16)) = int (n div 16)"
      "list_all is_hex_char (hex_of_nat (n div 16))" by simp_all
    have "n = 16 * (n div 16) + n mod 16" by simp
    then have "int n = int (16 * (n div 16) + n mod 16)" by (rule arg_cong)
    then have e: "int n = 16 * int (n div 16) + int (n mod 16)" by (simp only: of_nat_add of_nat_mult of_nat_numeral)
    have step: "hex_of_nat n = hex_of_nat (n div 16) @ [hex_char (n mod 16)]"
      using False by (simp add: hex_of_nat.simps [of n])
    show ?thesis
      unfolding step hex_value_snoc hex_char_ok(2) [OF d] ih(1) using e ih(2) hex_char_ok(1) [OF d]
      by simp
  qed
qed


lemma hex_of_nat_length:
  "n < 16 ^ k \<Longrightarrow> 0 < k \<Longrightarrow> length (hex_of_nat n) \<le> k"
proof (induction n arbitrary: k rule: hex_of_nat.induct)
  case (1 n)
  show ?case
  proof (cases "n < 16")
    case True
    with 1(3) show ?thesis by (simp add: hex_of_nat.simps [of n])
  next
    case False
    obtain j where k: "k = Suc j" using 1(3) by (cases k) auto
    have j: "0 < j"
    proof (cases j)
      case 0
      with 1(2) k False show ?thesis by simp
    next
      case (Suc i)
      then show ?thesis by simp
    qed
    have "n < 16 ^ j * 16" using 1(2) k by simp
    then have "n div 16 < 16 ^ j" by (rule less_mult_imp_div_less)
    from 1(1) [OF False this j] have "length (hex_of_nat (n div 16)) \<le> j" .
    moreover have "hex_of_nat n = hex_of_nat (n div 16) @ [hex_char (n mod 16)]"
      using False by (simp add: hex_of_nat.simps [of n])
    ultimately show ?thesis by (simp add: k)
  qed
qed


lemma hex_of_nat_lower:
  "0 < n \<Longrightarrow> 16 ^ (length (hex_of_nat n) - 1) \<le> n"
proof (induction n rule: hex_of_nat.induct)
  case (1 n)
  show ?case
  proof (cases "n < 16")
    case True
    with 1(2) show ?thesis by (simp add: hex_of_nat.simps [of n])
  next
    case False
    then have p: "0 < n div 16" by (simp add: div_greater_zero_iff)
    from 1(1) [OF False p] have ih: "16 ^ (length (hex_of_nat (n div 16)) - 1) \<le> n div 16" .
    have ne: "hex_of_nat (n div 16) \<noteq> []" using hex_of_nat_value [of "n div 16"] by simp
    have step: "hex_of_nat n = hex_of_nat (n div 16) @ [hex_char (n mod 16)]"
      using False by (simp add: hex_of_nat.simps [of n])
    have len: "length (hex_of_nat n) - 1 = Suc (length (hex_of_nat (n div 16)) - 1)"
      unfolding step using ne by (cases "hex_of_nat (n div 16)") simp_all
    have "16 * 16 ^ (length (hex_of_nat (n div 16)) - 1) \<le> 16 * (n div 16)"
      using ih by (rule mult_le_mono2)
    also have "16 * (n div 16) \<le> n" by simp
    finally show ?thesis unfolding len by simp
  qed
qed

lemma hex_digit_table:
  "\<forall>c \<in> set ''0123456789ABCDEFabcdef''. 0 \<le> hex_digit_value c \<and> hex_digit_value c \<le> 15"
  by code_simp

lemma hex_value_upper:
  "list_all is_hex_char s \<Longrightarrow> 0 \<le> hex_value s \<and> hex_value s < 16 ^ length s"
proof (induction s rule: rev_induct)
  case Nil
  show ?case by (simp add: hex_value_def)
next
  case (snoc c s)
  have "is_hex_char c" using snoc.prems by simp
  then have "0 \<le> hex_digit_value c \<and> hex_digit_value c \<le> 15"
    using hex_digit_table unfolding is_hex_char_def by blast
  moreover have "0 \<le> hex_value s \<and> hex_value s < 16 ^ length s"
    using snoc by simp
  ultimately show ?case unfolding hex_value_snoc by simp
qed

lemma int16_hex_value: "int16 s = Inr v \<Longrightarrow> list_all is_hex_char s \<and> hex_value s = v"
  by (auto simp: int16_def hex_value_def split: if_splits)

lemma int16_hex_of_nat: "int16 (hex_of_nat n) = Inr (int n)"
  using hex_of_nat_value [of n] by (simp add: int16_def hex_value_def)


lemma int16_zero_pad: "int16 (zero_pad w (hex_of_nat n)) = Inr (int n)"
proof -
  have h: "hex_value (hex_of_nat n) = int n" "list_all is_hex_char (hex_of_nat n)"
    "hex_of_nat n \<noteq> []" using hex_of_nat_value [of n] by simp_all
  have z: "is_hex_char (CHR ''0'')" by (simp add: is_hex_char_def)
  have "list_all is_hex_char (replicate k (CHR ''0''))" for k
    by (induction k) (simp_all add: z)
  then have "list_all is_hex_char (zero_pad w (hex_of_nat n))"
    using h(2) by (simp add: zero_pad_def)
  moreover have "zero_pad w (hex_of_nat n) \<noteq> []" using h(3) by (simp add: zero_pad_def)
  moreover have "hex_value (zero_pad w (hex_of_nat n)) = int n"
    unfolding zero_pad_def hex_value_zeros by (rule h(1))
  ultimately show ?thesis by (simp add: int16_def hex_value_def)
qed

lemma zero_pad_length: "length s \<le> w \<Longrightarrow> length (zero_pad w s) = w"
  by (simp add: zero_pad_def)

lemma hex_of_nat_shortest:
  assumes n: "0 < n" and d: "int16 ds' = Inr (int n)"
  shows "length (hex_of_nat n) \<le> length ds'"
proof -
  from int16_hex_value [OF d] have "list_all is_hex_char ds'" "hex_value ds' = int n" by simp_all
  with hex_value_upper [of ds'] have up: "int n < 16 ^ length ds'" by simp
  have "(16 :: nat) ^ (length (hex_of_nat n) - 1) \<le> n" by (rule hex_of_nat_lower [OF n])
  then have "int (16 ^ (length (hex_of_nat n) - 1)) \<le> int n" by (simp only: of_nat_le_iff)
  then have "(16 :: int) ^ (length (hex_of_nat n) - 1) \<le> int n" by simp
  from this up have "(16 :: int) ^ (length (hex_of_nat n) - 1) < 16 ^ length ds'"
    by (rule le_less_trans)
  then have "length (hex_of_nat n) - 1 < length ds'"
    by (rule power_less_imp_less_exp [rotated]) simp
  then show ?thesis by simp
qed

lemma fmt_u32_boundary_text:
  "fmt_u32 0x0 = ''0x0000u''" "fmt_u32 0xFFFF = ''0xFFFFu''"
  "fmt_u32 0x10000 = ''0x10000u''" "fmt_u32 0x10FFFF = ''0x10FFFFu''"
  by (simp_all add: fmt_u32_def format_04X_def format_X_def zero_pad_def hex_of_nat.simps
        hex_char_def numeral_3_eq_3)

lemma int16_boundary_digits:
  "int16 ''0000'' = Inr 0x0" "int16 ''FFFF'' = Inr 0xFFFF"
  "int16 ''10000'' = Inr 0x10000" "int16 ''10FFFF'' = Inr 0x10FFFF"
  by (simp_all add: int16_def is_hex_char_def hex_digit_value_def)

lemma fmt_u32_boundaries:
  "fmt_u32 0x0 = ''0x0000u'' \<and> int16 ''0000'' = Inr 0x0
   \<and> fmt_u32 0xFFFF = ''0xFFFFu'' \<and> int16 ''FFFF'' = Inr 0xFFFF
   \<and> fmt_u32 0x10000 = ''0x10000u'' \<and> int16 ''10000'' = Inr 0x10000
   \<and> fmt_u32 0x10FFFF = ''0x10FFFFu'' \<and> int16 ''10FFFF'' = Inr 0x10FFFF"
  by (intro conjI) (rule fmt_u32_boundary_text int16_boundary_digits)+

lemma fmt_u32_digits:
  assumes x: "0 \<le> x"
  shows "\<exists>ds. fmt_u32 x = ''0x'' @ ds @ ''u''
         \<and> int16 ds = Inr x
         \<and> (x \<le> 0xFFFF \<longrightarrow> length ds = 4)
         \<and> (0xFFFF < x \<longrightarrow> (\<forall>ds'. int16 ds' = Inr x \<longrightarrow> length ds \<le> length ds'))"
proof -
  define n where "n = nat x"
  have xn: "x = int n" using x by (simp add: n_def)
  show ?thesis
  proof (cases "x \<le> 0xFFFF")
    case True
    then have "n < 16 ^ 4" using xn by simp
    then have "length (hex_of_nat n) \<le> 4" by (rule hex_of_nat_length) simp
    then have len: "length (zero_pad 4 (hex_of_nat n)) = 4" by (rule zero_pad_length)
    have f: "fmt_u32 x = ''0x'' @ zero_pad 4 (hex_of_nat n) @ ''u''"
      using True x by (simp add: fmt_u32_def format_04X_def n_def)
    have i: "int16 (zero_pad 4 (hex_of_nat n)) = Inr x"
      unfolding xn by (rule int16_zero_pad)
    show ?thesis
    proof (intro exI [of _ "zero_pad 4 (hex_of_nat n)"] conjI impI)
      show "fmt_u32 x = ''0x'' @ zero_pad 4 (hex_of_nat n) @ ''u''" by (rule f)
      show "int16 (zero_pad 4 (hex_of_nat n)) = Inr x" by (rule i)
      show "length (zero_pad 4 (hex_of_nat n)) = 4" by (rule len)
      assume "0xFFFF < x"
      with True show "\<forall>ds'. int16 ds' = Inr x \<longrightarrow> length (zero_pad 4 (hex_of_nat n)) \<le> length ds'"
        by simp
    qed
  next
    case False
    then have pos: "0 < n" using xn by simp
    have f: "fmt_u32 x = ''0x'' @ hex_of_nat n @ ''u''"
      using False x by (simp add: fmt_u32_def format_X_def n_def)
    have i: "int16 (hex_of_nat n) = Inr x"
      unfolding xn by (rule int16_hex_of_nat)
    have m: "\<forall>ds'. int16 ds' = Inr x \<longrightarrow> length (hex_of_nat n) \<le> length ds'"
      unfolding xn using hex_of_nat_shortest [OF pos] by blast
    show ?thesis
    proof (intro exI [of _ "hex_of_nat n"] conjI impI)
      show "fmt_u32 x = ''0x'' @ hex_of_nat n @ ''u''" by (rule f)
      show "int16 (hex_of_nat n) = Inr x" by (rule i)
      show "\<forall>ds'. int16 ds' = Inr x \<longrightarrow> length (hex_of_nat n) \<le> length ds'" by (rule m)
      assume "x \<le> 0xFFFF"
      with False show "length (hex_of_nat n) = 4" by simp
    qed
  qed
qed

text \<open>
  Claim C5. For every value \<open>x \<ge> 0\<close> (the formatter renders codepoints, which the parser
  guarantees to be non-negative), \<open>fmt_u32 x\<close> is \<open>0x\<close>, hexadecimal digits and the
  unsigned suffix \<open>u\<close>. Parsing the digits as hexadecimal gives \<open>x\<close> back. For
  \<open>x \<le> 0xFFFF\<close> there are exactly four digits (so the value is zero-padded); for
  \<open>x > 0xFFFF\<close> the digits have minimal width: no hexadecimal literal of the same value
  is shorter. The boundary values \<open>0x0\<close>, \<open>0xFFFF\<close>, \<open>0x10000\<close> and \<open>0x10FFFF\<close> render as
  \<open>0x0000u\<close>, \<open>0xFFFFu\<close>, \<open>0x10000u\<close> and \<open>0x10FFFFu\<close>, and their digits parse back.
\<close>

theorem fmt_u32_roundtrip:
  "0 \<le> x \<Longrightarrow>
   (\<exists>ds. fmt_u32 x = ''0x'' @ ds @ ''u''
         \<and> int16 ds = Inr x
         \<and> (x \<le> 0xFFFF \<longrightarrow> length ds = 4)
         \<and> (0xFFFF < x \<longrightarrow> (\<forall>ds'. int16 ds' = Inr x \<longrightarrow> length ds \<le> length ds')))
   \<and> fmt_u32 0x0 = ''0x0000u'' \<and> int16 ''0000'' = Inr 0x0
   \<and> fmt_u32 0xFFFF = ''0xFFFFu'' \<and> int16 ''FFFF'' = Inr 0xFFFF
   \<and> fmt_u32 0x10000 = ''0x10000u'' \<and> int16 ''10000'' = Inr 0x10000
   \<and> fmt_u32 0x10FFFF = ''0x10FFFFu'' \<and> int16 ''10FFFF'' = Inr 0x10FFFF"
proof -
  assume x: "0 \<le> x"
  from fmt_u32_digits [OF x] fmt_u32_boundaries show ?thesis by (rule conjI)
qed

theorem fmt_u32_roundtrip_witness:
  "(\<exists>ds. fmt_u32 0x41 = ''0x'' @ ds @ ''u'' \<and> int16 ds = Inr 0x41 \<and> length ds = 4)
   \<and> fmt_u32 0x41 = ''0x0041u''
   \<and> (\<exists>ds. fmt_u32 0x1F600 = ''0x'' @ ds @ ''u'' \<and> int16 ds = Inr 0x1F600
          \<and> length ds \<le> length ''01F600'')
   \<and> fmt_u32 0x1F600 = ''0x1F600u''"
proof -
  have i: "int16 ''01F600'' = Inr 0x1F600"
    by (simp add: int16_def is_hex_char_def hex_digit_value_def)
  from fmt_u32_roundtrip [of "0x41"] obtain ds where
    a: "fmt_u32 0x41 = ''0x'' @ ds @ ''u''" "int16 ds = Inr 0x41" "length ds = 4"
    by auto
  from fmt_u32_roundtrip [of "0x1F600"] obtain ds' where
    b: "fmt_u32 0x1F600 = ''0x'' @ ds' @ ''u''" "int16 ds' = Inr 0x1F600"
      "\<forall>e. int16 e = Inr 0x1F600 \<longrightarrow> length ds' \<le> length e"
    by auto
  from b(3) i have c: "length ds' \<le> length ''01F600''" by blast
  have t: "fmt_u32 0x41 = ''0x0041u''" "fmt_u32 0x1F600 = ''0x1F600u''"
    by (simp_all add: fmt_u32_def format_04X_def format_X_def zero_pad_def hex_of_nat.simps
          hex_char_def numeral_2_eq_2)
  from a b(1,2) c t show ?thesis by blast
qed

end
